theory Spec2Isabelle
  imports Complex_Main "HOL-Library.Word"
begin

section \<open>Strings and the document tree\<close>

text \<open>
  Text data is a list of UTF-16 code units, as a JavaScript string is. Tag names, class
  names, event names and font descriptors are only ever compared with each other or
  with ASCII literals, so they are plain strings.
\<close>

type_synonym jsstring = "16 word list"

text \<open>
  The code units that \<^verbatim>\<open>String.prototype.trim\<close> strips: the WhiteSpace and
  LineTerminator productions of ECMAScript.
\<close>

definition isWhiteSpace :: "16 word \<Rightarrow> bool" where
  "isWhiteSpace c = (c \<in> set [0x0009, 0x000A, 0x000B, 0x000C, 0x000D, 0x0020, 0x00A0,
     0x1680, 0x2000, 0x2001, 0x2002, 0x2003, 0x2004, 0x2005, 0x2006, 0x2007, 0x2008,
     0x2009, 0x200A, 0x2028, 0x2029, 0x202F, 0x205F, 0x3000, 0xFEFF])"

definition trim :: "jsstring \<Rightarrow> jsstring" where
  "trim s = rev (dropWhile isWhiteSpace (rev (dropWhile isWhiteSpace s)))"

text \<open>
  The properties of an element that the program reads: its tag and classes, the
  \<^verbatim>\<open>complete\<close> flag of an image, \<^verbatim>\<open>readyState\<close> and \<^verbatim>\<open>poster\<close> of a video, and
  the three font properties of its computed style.
\<close>

record elem =
  tagName :: string
  classList :: "string list"
  complete :: bool
  readyState :: nat
  poster :: string
  fontFamily :: string
  fontStyle :: string
  fontWeight :: string

text \<open>A node is an element (with its identity, properties and children) or a text node.\<close>

datatype node =
    Element (nodeId: nat) (props: elem) (childNodes: "node list")
  | TextNode (data: jsstring)

text \<open>
  \<^verbatim>\<open>textContent\<close>: the data of the text-node descendants, concatenated in tree order.
  It is never \<^verbatim>\<open>null\<close> for an element or a text node.
\<close>

fun textData :: "node \<Rightarrow> jsstring" where
  "textData (TextNode s) = s"
| "textData (Element i a ks) = concat (map textData ks)"

definition textContent :: "node \<Rightarrow> jsstring option" where
  "textContent n = Some (textData n)"

text \<open>An element and its element descendants, in tree order.\<close>

fun subtreeElements :: "node \<Rightarrow> node list" where
  "subtreeElements (TextNode s) = []"
| "subtreeElements (Element i a ks) = Element i a ks # concat (map subtreeElements ks)"

fun descendantElements :: "node \<Rightarrow> node list" where
  "descendantElements (TextNode s) = []"
| "descendantElements (Element i a ks) = concat (map subtreeElements ks)"

text \<open>\<^verbatim>\<open>element.getElementsByTagName(t)\<close>: the element descendants (not the element itself) with that tag.\<close>

definition getElementsByTagName :: "node \<Rightarrow> string \<Rightarrow> node list" where
  "getElementsByTagName n t = filter (\<lambda>d. tagName (props d) = t) (descendantElements n)"

fun firstElement :: "node list \<Rightarrow> node option" where
  "firstElement [] = None"
| "firstElement (TextNode s # ks) = firstElement ks"
| "firstElement (Element i a cs # ks) = Some (Element i a cs)"

fun firstElementChild :: "node \<Rightarrow> node option" where
  "firstElementChild (TextNode s) = None"
| "firstElementChild (Element i a ks) = firstElement ks"

section \<open>Readiness predicates\<close>

text \<open>
  \<^verbatim>\<open>
  const hasTextContent = (element) => {
      let textContent = element.textContent;
      return !!(textContent !== null && textContent !== undefined && textContent.trim().length);
  };
  const hasDependencies = (element) => {
      const hasImages = element.getElementsByTagName("img").length > 0;
      const hasVideos = element.getElementsByTagName("video").length > 0;
      return hasTextContent(element) || hasImages || hasVideos;
  };
  \<close>
\<close>

definition hasTextContent :: "node \<Rightarrow> bool" where
  "hasTextContent element =
     (case textContent element of
        None \<Rightarrow> False
      | Some t \<Rightarrow> length (trim t) \<noteq> 0)"

definition hasDependencies :: "node \<Rightarrow> bool" where
  "hasDependencies element =
     (let hasImages = length (getElementsByTagName element ''img'') > 0;
          hasVideos = length (getElementsByTagName element ''video'') > 0
      in hasTextContent element \<or> hasImages \<or> hasVideos)"

section \<open>Promises, the microtask queue and the host state\<close>

text \<open>
  Promises live in a heap, addressed by their index. A pending promise holds the
  reactions that \<^verbatim>\<open>then\<close> and \<^verbatim>\<open>await\<close> attached to it. Settling a promise turns each
  reaction into a job of the microtask queue; a reaction attached to a settled promise
  becomes a job at once. Nothing runs a reaction synchronously.

  The program attaches three kinds of reaction:
  \<^item> \<open>AllMember agg i\<close>: member \<open>i\<close> of the \<^verbatim>\<open>Promise.all\<close> aggregate \<open>agg\<close>. On
    fulfilment the index leaves the aggregate's waiting list, and the aggregate is
    fulfilled when the list is empty; on rejection the aggregate is rejected;
  \<^item> \<open>Adopt p\<close>: the promise \<open>p\<close> of the async function \<^verbatim>\<open>loadElementResources\<close> takes the
    outcome of the promise that the function returned;
  \<^item> \<open>Resume e r\<close>: the rest of \<^verbatim>\<open>startAnimationForElement\<close> after its \<^verbatim>\<open>await\<close>, for the
    element \<open>e\<close> and the promise \<open>r\<close> of that call. On fulfilment it requests an animation
    frame for \<open>e\<close> and fulfils \<open>r\<close>; on rejection the \<^verbatim>\<open>await\<close> throws, nothing catches
    it, and \<open>r\<close> is rejected.
\<close>

datatype pstate = Pending | Fulfilled | Rejected

datatype reaction = AllMember nat nat | Adopt nat | Resume nat nat

record promise =
  pstate :: pstate
  reactions :: "reaction list"
  waiting :: "nat list"

text \<open>
  A job of the microtask queue: a reaction with the outcome it reacts to (\<open>True\<close> for
  fulfilment), or the job that calls \<^verbatim>\<open>then\<close> on the promise \<open>src\<close> an async function
  returned, on behalf of that function's own promise \<open>tgt\<close>.
\<close>

datatype job = React reaction bool | ThenJob (src: nat) (tgt: nat)

text \<open>What an event listener registered by the program does: \<^verbatim>\<open>() => resolve()\<close> or \<^verbatim>\<open>() => reject()\<close>.\<close>

datatype action = Resolve nat | Reject nat

record listener =
  target :: nat
  eventType :: string
  handler :: action

text \<open>A \<^verbatim>\<open>FontFace\<close> of \<^verbatim>\<open>document.fonts\<close>; \<open>loaded\<close> is its readiness promise.\<close>

record fontFace =
  family :: string
  style :: string
  weight :: string
  loaded :: nat

record observerEntry =
  entryTarget :: node
  isIntersecting :: bool

record intersectionObserver =
  threshold :: rat
  observed :: "node list"

text \<open>
  The state of the page: the promise heap, the microtask queue, the callbacks waiting
  for the next animation frame (each sets \<^verbatim>\<open>animationPlayState\<close> of one element to
  \<^verbatim>\<open>"running"\<close>), the registered listeners, the \<^verbatim>\<open>style.animationPlayState\<close> and \<^verbatim>\<open>loading\<close>
  properties that the program has written (by element), \<^verbatim>\<open>document.fonts\<close> with its
  \<^verbatim>\<open>ready\<close> promise, the document, and the intersection observers. \<open>dispatched\<close> logs
  each call of the dispatcher by an observer callback, as the observer and the target;
  nothing reads it.
\<close>

record world =
  promises :: "promise list"
  microtasks :: "job list"
  frames :: "nat list"
  listeners :: "listener list"
  animationPlayState :: "nat \<rightharpoonup> string"
  loading :: "nat \<rightharpoonup> string"
  fonts :: "fontFace list"
  fontsReady :: nat
  document :: "node list"
  observers :: "intersectionObserver list"
  dispatched :: "(nat \<times> nat) list"

definition newPromise :: "world \<Rightarrow> world \<times> nat" where
  "newPromise w =
     (w\<lparr>promises := promises w @ [\<lparr>pstate = Pending, reactions = [], waiting = []\<rparr>]\<rparr>,
      length (promises w))"

text \<open>
  Resolving or rejecting: a promise that is already settled ignores it; a pending one
  takes the outcome and hands its reactions to the microtask queue.
\<close>

definition settle :: "nat \<Rightarrow> bool \<Rightarrow> world \<Rightarrow> world" where
  "settle p ok w =
     (if p < length (promises w) \<and> pstate (promises w ! p) = Pending
      then w\<lparr>promises := (promises w)[p := (promises w ! p)
                  \<lparr>pstate := (if ok then Fulfilled else Rejected), reactions := []\<rparr>],
             microtasks := microtasks w @ map (\<lambda>r. React r ok) (reactions (promises w ! p))\<rparr>
      else w)"

text \<open>\<^verbatim>\<open>p.then(...)\<close> and \<^verbatim>\<open>await p\<close>: attach a reaction.\<close>

definition subscribe :: "nat \<Rightarrow> reaction \<Rightarrow> world \<Rightarrow> world" where
  "subscribe p r w =
     (if p < length (promises w)
      then (case pstate (promises w ! p) of
              Pending \<Rightarrow> w\<lparr>promises := (promises w)[p := (promises w ! p)
                                \<lparr>reactions := reactions (promises w ! p) @ [r]\<rparr>]\<rparr>
            | Fulfilled \<Rightarrow> w\<lparr>microtasks := microtasks w @ [React r True]\<rparr>
            | Rejected \<Rightarrow> w\<lparr>microtasks := microtasks w @ [React r False]\<rparr>)
      else w)"

definition requestAnimationFrame :: "nat \<Rightarrow> world \<Rightarrow> world" where
  "requestAnimationFrame e w = w\<lparr>frames := frames w @ [e]\<rparr>"

definition markDone :: "nat \<Rightarrow> nat \<Rightarrow> world \<Rightarrow> world" where
  "markDone agg i w =
     (if agg < length (promises w)
      then w\<lparr>promises := (promises w)[agg := (promises w ! agg)
                  \<lparr>waiting := removeAll i (waiting (promises w ! agg))\<rparr>]\<rparr>
      else w)"

fun runJob :: "job \<Rightarrow> world \<Rightarrow> world" where
  "runJob (React (AllMember agg i) True) w =
     (let w' = markDone agg i w
      in if agg < length (promises w') \<and> waiting (promises w' ! agg) = []
         then settle agg True w' else w')"
| "runJob (React (AllMember agg i) False) w = settle agg False w"
| "runJob (React (Adopt p) ok) w = settle p ok w"
| "runJob (React (Resume e r) True) w = settle r True (requestAnimationFrame e w)"
| "runJob (React (Resume e r) False) w = settle r False w"
| "runJob (ThenJob s t) w = subscribe s (Adopt t) w"

text \<open>
  \<^verbatim>\<open>Promise.all(ms)\<close>: a new promise that waits for every index of \<open>ms\<close>. Of an empty list
  it is fulfilled when \<^verbatim>\<open>Promise.all\<close> returns.
\<close>

definition promiseAll :: "nat list \<Rightarrow> world \<Rightarrow> world \<times> nat" where
  "promiseAll ms w =
     (let agg = length (promises w);
          w1 = w\<lparr>promises := promises w @
                 [\<lparr>pstate = Pending, reactions = [], waiting = [0..<length ms]\<rparr>]\<rparr>;
          w2 = fold (\<lambda>(i, m). subscribe m (AllMember agg i)) (zip [0..<length ms] ms) w1
      in ((if ms = [] then settle agg True w2 else w2), agg))"


section \<open>Resource wait primitives\<close>

text \<open>
  \<^verbatim>\<open>
  const loadImage = (image) => new Promise((resolve, reject) => {
      if (image.complete) {
          resolve();
      } else {
          image.loading = "eager";
          image.addEventListener("load", () => resolve());
          image.addEventListener("error", () => reject());
      }
  });
  \<close>
\<close>

definition loadImage :: "node \<Rightarrow> world \<Rightarrow> world \<times> nat" where
  "loadImage img w =
     (let (w1, p) = newPromise w
      in if complete (props img)
         then (settle p True w1, p)
         else (w1\<lparr>loading := (loading w1)(nodeId img \<mapsto> ''eager''),
                  listeners := listeners w1 @
                    [\<lparr>target = nodeId img, eventType = ''load'', handler = Resolve p\<rparr>,
                     \<lparr>target = nodeId img, eventType = ''error'', handler = Reject p\<rparr>]\<rparr>,
               p))"

text \<open>
  \<^verbatim>\<open>
  const loadVideo = (video) => new Promise((resolve, reject) => {
      if (video.readyState >= 2 || video.poster) {
          resolve();
      } else {
          video.addEventListener("loadeddata", () => resolve());
          video.addEventListener("error", () => reject());
      }
  });
  \<close>
  \<^verbatim>\<open>video.poster\<close> is a string, true as a condition when it is not empty.
\<close>

definition loadVideo :: "node \<Rightarrow> world \<Rightarrow> world \<times> nat" where
  "loadVideo vid w =
     (let (w1, p) = newPromise w
      in if readyState (props vid) \<ge> 2 \<or> poster (props vid) \<noteq> []
         then (settle p True w1, p)
         else (w1\<lparr>listeners := listeners w1 @
                    [\<lparr>target = nodeId vid, eventType = ''loadeddata'', handler = Resolve p\<rparr>,
                     \<lparr>target = nodeId vid, eventType = ''error'', handler = Reject p\<rparr>]\<rparr>,
               p))"

text \<open>
  \<^verbatim>\<open>
  const loadedFonts = new Map();
  document.fonts.forEach((font) => {
      loadedFonts.set(`${font.family}_${font.style}_${font.weight}`, font);
  });
  \<close>
  A later face with the same key replaces an earlier one.
\<close>

definition faceKey :: "fontFace \<Rightarrow> string" where
  "faceKey font = family font @ ''_'' @ style font @ ''_'' @ weight font"

definition loadedFontsMap :: "world \<Rightarrow> (string \<rightharpoonup> fontFace)" where
  "loadedFontsMap w = fold (\<lambda>font m. m(faceKey font \<mapsto> font)) (fonts w) Map.empty"

text \<open>
  \<^verbatim>\<open>
  const loadFonts = (span, loadedFontsMap) => {
      const { fontFamily, fontStyle, fontWeight } = getComputedStyle(span);
      const fontKey = `${fontFamily}_${fontStyle}_${fontWeight}`;
      const font = loadedFontsMap.get(fontKey);
      return (font?.loaded || document.fonts.ready);
  };
  \<close>
  \<^verbatim>\<open>font.loaded\<close> is a promise, and an object is always true as a condition.
\<close>

definition loadFonts :: "node \<Rightarrow> (string \<rightharpoonup> fontFace) \<Rightarrow> world \<Rightarrow> nat" where
  "loadFonts spanEl loadedFonts w =
     (let fontKey = fontFamily (props spanEl) @ ''_'' @ fontStyle (props spanEl) @ ''_'' @
                    fontWeight (props spanEl);
          font = loadedFonts fontKey
      in case font of
           Some f \<Rightarrow> loaded f
         | None \<Rightarrow> fontsReady w)"

section \<open>Dependency aggregator\<close>

text \<open>One of the \<^verbatim>\<open>for\<close> loops that push a wait per element onto \<^verbatim>\<open>loadingPromises\<close>.\<close>

fun loadEach :: "(node \<Rightarrow> world \<Rightarrow> world \<times> nat) \<Rightarrow> node list \<Rightarrow> world \<Rightarrow> world \<times> nat list" where
  "loadEach f [] w = (w, [])"
| "loadEach f (x # xs) w =
     (let (w1, p) = f x w;
          (w2, ps) = loadEach f xs w1
      in (w2, p # ps))"

text \<open>The body of \<^verbatim>\<open>loadElementResources\<close> up to the call of \<^verbatim>\<open>Promise.all\<close>: it builds \<^verbatim>\<open>loadingPromises\<close>.\<close>

definition collectWaits :: "node \<Rightarrow> world \<Rightarrow> world \<times> nat list" where
  "collectWaits element w =
     (let (w1, imagePromises) = loadEach loadImage (getElementsByTagName element ''img'') w;
          (w2, videoPromises) = loadEach loadVideo (getElementsByTagName element ''video'') w1;
          loadedFonts = loadedFontsMap w2;
          spans = getElementsByTagName element ''span''
      in (w2, imagePromises @ videoPromises @ map (\<lambda>spanEl. loadFonts spanEl loadedFonts w2) spans))"

text \<open>
  \<^verbatim>\<open>loadElementResources\<close> is an async function: its call makes a promise of its own,
  and \<^verbatim>\<open>return Promise.all(loadingPromises)\<close> resolves that promise with the aggregate,
  which queues the job that calls \<^verbatim>\<open>then\<close> on the aggregate.
\<close>

definition loadElementResources :: "node \<Rightarrow> world \<Rightarrow> world \<times> nat" where
  "loadElementResources element w =
     (let (w0, result) = newPromise w;
          (w1, loadingPromises) = collectWaits element w0;
          (w2, agg) = promiseAll loadingPromises w1
      in (w2\<lparr>microtasks := microtasks w2 @ [ThenJob agg result]\<rparr>, result))"

section \<open>Animation dispatcher\<close>

text \<open>
  \<^verbatim>\<open>
  const startAnimationForElement = async (element) => {
      const isAnimated = element.classList.contains("animated");
      const requestAnimationFrameAndStart = () => window.requestAnimationFrame(() => {
          element.style.animationPlayState = "running";
      });
      if (isAnimated && hasDependencies(element)) {
          await loadElementResources(element);
          requestAnimationFrameAndStart();
      } else if (isAnimated) {
          requestAnimationFrameAndStart();
      } else if (element.firstElementChild != null) {
          startAnimationForElement(element.firstElementChild);
      }
  };
  \<close>
  The call returns the promise of the async function. The promise of the recursive call
  is dropped. A text node has no \<^verbatim>\<open>classList\<close>: the first line throws and the promise is
  rejected.
\<close>

lemma firstElement_size [termination_simp]:
  "firstElement ks = Some c \<Longrightarrow> size c < Suc (size_list size ks)"
  by (induction ks rule: firstElement.induct) auto

function startAnimationForElement :: "node \<Rightarrow> world \<Rightarrow> world \<times> nat" where
  "startAnimationForElement (TextNode s) w =
     (let (w0, result) = newPromise w in (settle result False w0, result))"
| "startAnimationForElement (Element i a ks) w =
     (let (w0, result) = newPromise w;
          element = Element i a ks;
          isAnimated = (''animated'' \<in> set (classList a))
      in if isAnimated \<and> hasDependencies element then
           (let (w1, p) = loadElementResources element w0
            in (subscribe p (Resume i result) w1, result))
         else if isAnimated then
           (settle result True (requestAnimationFrame i w0), result)
         else (case firstElementChild element of
                 Some child \<Rightarrow>
                   (let (w1, dropped) = startAnimationForElement child w0
                    in (settle result True w1, result))
               | None \<Rightarrow> (settle result True w0, result)))"
  by pat_completeness auto
termination
  by (relation "measure (\<lambda>(n, w). size n)") (auto dest: firstElement_size)


section \<open>Viewport visibility observer\<close>



definition unobserve :: "nat \<Rightarrow> node \<Rightarrow> world \<Rightarrow> world" where
  "unobserve k t w =
     (if k < length (observers w)
      then w\<lparr>observers := (observers w)[k := (observers w ! k)
                  \<lparr>observed := filter (\<lambda>x. nodeId x \<noteq> nodeId t) (observed (observers w ! k))\<rparr>]\<rparr>
      else w)"

text \<open>
  \<^verbatim>\<open>
  (entries) => {
      entries.forEach((entry) => {
          if (!entry.isIntersecting) return;
          const targetElement = entry.target;
          startAnimationForElement(targetElement);
          intersectionObserver.unobserve(targetElement);
      });
  }
  \<close>
  \<open>k\<close> is the observer that the callback belongs to.
\<close>

definition onEntry :: "nat \<Rightarrow> observerEntry \<Rightarrow> world \<Rightarrow> world" where
  "onEntry k entry w =
     (if \<not> isIntersecting entry then w
      else (let targetElement = entryTarget entry;
                (w1, dropped) = startAnimationForElement targetElement w;
                w2 = w1\<lparr>dispatched := dispatched w1 @ [(k, nodeId targetElement)]\<rparr>
            in unobserve k targetElement w2))"

definition observerCallback :: "nat \<Rightarrow> observerEntry list \<Rightarrow> world \<Rightarrow> world" where
  "observerCallback k entries w = fold (onEntry k) entries w"


section \<open>The host\<close>

text \<open>
  What the browser does between two runs of the program's code:
  \<^item> \<open>DomEvent e t\<close>: it fires the event \<open>t\<close> at the element \<open>e\<close>, which runs the listeners
    registered for it, in the order of their registration;
  \<^item> \<open>RunMicrotask\<close>: it runs the first job of the microtask queue;
  \<^item> \<open>AnimationFrame\<close>: it runs the callbacks waiting for the next frame;
  \<^item> \<open>FontLoad i ok\<close>: the font face \<open>i\<close> has loaded (or failed): it settles the face's
    \<open>loaded\<close> promise;
  \<^item> \<open>FontsReady\<close>: it fulfils \<^verbatim>\<open>document.fonts.ready\<close>, a promise that the host never rejects;
  \<^item> \<open>Intersect k entries\<close>: it calls the callback of the observer \<open>k\<close>.
\<close>

datatype hostEvent =
    DomEvent nat string
  | RunMicrotask
  | AnimationFrame
  | FontLoad nat bool
  | FontsReady
  | Intersect nat "observerEntry list"

definition runListener :: "listener \<Rightarrow> world \<Rightarrow> world" where
  "runListener l w = (case handler l of Resolve p \<Rightarrow> settle p True w | Reject p \<Rightarrow> settle p False w)"

definition runFrame :: "nat \<Rightarrow> world \<Rightarrow> world" where
  "runFrame e w = w\<lparr>animationPlayState := (animationPlayState w)(e \<mapsto> ''running'')\<rparr>"

fun host :: "hostEvent \<Rightarrow> world \<Rightarrow> world" where
  "host (DomEvent e t) w =
     fold runListener (filter (\<lambda>l. target l = e \<and> eventType l = t) (listeners w)) w"
| "host RunMicrotask w =
     (case microtasks w of [] \<Rightarrow> w | j # js \<Rightarrow> runJob j (w\<lparr>microtasks := js\<rparr>))"
| "host AnimationFrame w = fold runFrame (frames w) (w\<lparr>frames := []\<rparr>)"
| "host (FontLoad i ok) w = (if i < length (fonts w) then settle (loaded (fonts w ! i)) ok w else w)"
| "host FontsReady w = settle (fontsReady w) True w"
| "host (Intersect k entries) w = observerCallback k entries w"

definition run :: "hostEvent list \<Rightarrow> world \<Rightarrow> world" where
  "run evs w = fold host evs w"



text \<open>An event of the resources and the schedulers: any event but a call of an observer callback.\<close>

fun resourceEvent :: "hostEvent \<Rightarrow> bool" where
  "resourceEvent (Intersect k entries) = False"
| "resourceEvent ev = True"

text \<open>A page on which no code has run yet.\<close>

definition emptyWorld :: world where
  "emptyWorld = \<lparr>promises = [\<lparr>pstate = Pending, reactions = [], waiting = []\<rparr>],
     microtasks = [], frames = [], listeners = [], animationPlayState = Map.empty,
     loading = Map.empty, fonts = [], fontsReady = 0, document = [], observers = [],
     dispatched = []\<rparr>"


section \<open>Well-formed states\<close>

text \<open>
  The promise that a reaction, a job or a listener settles, and the promises a job
  names. In a well-formed state every promise named anywhere is in the heap, so that a
  promise made later is one that nothing refers to yet.
\<close>

fun reactionTarget :: "reaction \<Rightarrow> nat" where
  "reactionTarget (AllMember agg i) = agg"
| "reactionTarget (Adopt p) = p"
| "reactionTarget (Resume e r) = r"

fun jobIds :: "job \<Rightarrow> nat list" where
  "jobIds (React r ok) = [reactionTarget r]"
| "jobIds (ThenJob s t) = [s, t]"

fun actionTarget :: "action \<Rightarrow> nat" where
  "actionTarget (Resolve p) = p"
| "actionTarget (Reject p) = p"

definition wellFormed :: "world \<Rightarrow> bool" where
  "wellFormed w =
     (let n = length (promises w)
      in list_all (\<lambda>p. list_all (\<lambda>r. reactionTarget r < n) (reactions p)) (promises w) \<and>
         list_all (\<lambda>j. list_all (\<lambda>i. i < n) (jobIds j)) (microtasks w) \<and>
         list_all (\<lambda>l. actionTarget (handler l) < n) (listeners w) \<and>
         list_all (\<lambda>f. loaded f < n) (fonts w) \<and>
         fontsReady w < n)"

text \<open>An element with no property set, for the examples.\<close>

definition plainElem :: "string \<Rightarrow> string list \<Rightarrow> elem" where
  "plainElem t cs = \<lparr>tagName = t, classList = cs, complete = False, readyState = 0,
     poster = [], fontFamily = ''serif'', fontStyle = ''normal'', fontWeight = ''400''\<rparr>"

text \<open>A page with one font face, for the examples.\<close>

definition fontWorld :: world where
  "fontWorld = emptyWorld\<lparr>
     promises := [\<lparr>pstate = Pending, reactions = [], waiting = []\<rparr>,
                  \<lparr>pstate = Pending, reactions = [], waiting = []\<rparr>],
     fonts := [\<lparr>family = ''serif'', style = ''normal'', weight = ''400'', loaded = 1\<rparr>]\<rparr>"

text \<open>
  What the program's own code never writes outside an animation frame and an observer
  callback: two states agree on the play states, the fonts, the document, the observers
  and the log.
\<close>

definition sameHost :: "world \<Rightarrow> world \<Rightarrow> bool" where
  "sameHost w w' =
     (animationPlayState w' = animationPlayState w \<and> fonts w' = fonts w \<and>
      fontsReady w' = fontsReady w \<and> document w' = document w \<and>
      observers w' = observers w \<and> dispatched w' = dispatched w)"




section \<open>The readiness predicates\<close>

lemma dropWhile_head: "dropWhile P xs = y # ys \<Longrightarrow> \<not> P y"
  by (induction xs) (auto split: if_splits)

lemma trim_eq_Nil_iff: "trim s = [] \<longleftrightarrow> (\<forall>c\<in>set s. isWhiteSpace c)"
proof (cases "dropWhile isWhiteSpace s")
  case Nil
  then have "\<forall>c\<in>set s. isWhiteSpace c" by (simp add: dropWhile_eq_Nil_conv)
  moreover have "trim s = []" unfolding trim_def Nil by simp
  ultimately show ?thesis by simp
next
  case (Cons y ys)
  then have "\<not> isWhiteSpace y" by (rule dropWhile_head)
  moreover have "y \<in> set s" using Cons set_dropWhileD[of y isWhiteSpace s] by simp
  ultimately show ?thesis using Cons by (auto simp: trim_def dropWhile_eq_Nil_conv)
qed

lemma length_filter_pos_iff: "0 < length (filter P xs) \<longleftrightarrow> (\<exists>x\<in>set xs. P x)"
  by (simp add: filter_empty_conv)

text \<open>
  C8. \<open>hasTextContent\<close> holds of a node exactly when its text content, trimmed, is not
  empty, that is when a text node under it (or the node itself) holds a character that
  is not white space; and \<open>hasDependencies\<close> holds of an element exactly when
  \<open>hasTextContent\<close> does or the element has an \<^verbatim>\<open>img\<close> or a \<^verbatim>\<open>video\<close> descendant. Both are
  functions of the node alone: they read no state and change none.
\<close>

theorem readiness_predicates:
  "(hasTextContent n \<longleftrightarrow> (\<exists>t. textContent n = Some t \<and> trim t \<noteq> [])) \<and>
   (hasTextContent n \<longleftrightarrow> (\<exists>c\<in>set (textData n). \<not> isWhiteSpace c)) \<and>
   (hasDependencies (Element i a ks) \<longleftrightarrow>
      hasTextContent (Element i a ks) \<or>
      (\<exists>d\<in>set (descendantElements (Element i a ks)). tagName (props d) = ''img'') \<or>
      (\<exists>d\<in>set (descendantElements (Element i a ks)). tagName (props d) = ''video''))"
proof -
  have a: "hasTextContent n \<longleftrightarrow> (\<exists>t. textContent n = Some t \<and> trim t \<noteq> [])"
    by (simp add: hasTextContent_def textContent_def)
  have b: "hasTextContent n \<longleftrightarrow> (\<exists>c\<in>set (textData n). \<not> isWhiteSpace c)"
    by (simp add: hasTextContent_def textContent_def trim_eq_Nil_iff)
  have c: "hasDependencies (Element i a ks) \<longleftrightarrow>
      hasTextContent (Element i a ks) \<or>
      (\<exists>d\<in>set (descendantElements (Element i a ks)). tagName (props d) = ''img'') \<or>
      (\<exists>d\<in>set (descendantElements (Element i a ks)). tagName (props d) = ''video'')"
    unfolding hasDependencies_def Let_def getElementsByTagName_def length_filter_pos_iff
    by blast
  from a b c show ?thesis by blast
qed


theorem readiness_predicates_witness:
  "hasTextContent (Element 1 (plainElem ''div'' []) [TextNode [0x20, 0x68, 0x69]]) \<and>
   \<not> hasTextContent (Element 1 (plainElem ''div'' []) [TextNode [0x20, 0x0A], Element 2 (plainElem ''img'' []) []]) \<and>
   hasDependencies (Element 1 (plainElem ''div'' []) [TextNode [0x20, 0x0A], Element 2 (plainElem ''img'' []) []]) \<and>
   \<not> hasDependencies (Element 1 (plainElem ''div'' []) [TextNode [0x20, 0x0A], Element 2 (plainElem ''span'' []) []])"
proof -
  note a = readiness_predicates[of "Element 1 (plainElem ''div'' []) [TextNode [0x20, 0x68, 0x69]]"
      1 "plainElem ''div'' []" "[TextNode [0x20, 0x68, 0x69]]", THEN conjunct2, THEN conjunct1]
  note b = readiness_predicates[of "Element 1 (plainElem ''div'' []) [TextNode [0x20, 0x0A], Element 2 (plainElem ''img'' []) []]"
      1 "plainElem ''div'' []" "[TextNode [0x20, 0x0A], Element 2 (plainElem ''img'' []) []]", THEN conjunct2]
  note c = readiness_predicates[of "Element 1 (plainElem ''div'' []) [TextNode [0x20, 0x0A], Element 2 (plainElem ''span'' []) []]"
      1 "plainElem ''div'' []" "[TextNode [0x20, 0x0A], Element 2 (plainElem ''span'' []) []]", THEN conjunct2]
  have 1: "hasTextContent (Element 1 (plainElem ''div'' []) [TextNode [0x20, 0x68, 0x69]])"
    unfolding a by (simp add: isWhiteSpace_def)
  have 2: "\<not> hasTextContent (Element 1 (plainElem ''div'' []) [TextNode [0x20, 0x0A], Element 2 (plainElem ''img'' []) []])"
    unfolding b[THEN conjunct1] by (simp add: isWhiteSpace_def)
  have 3: "hasDependencies (Element 1 (plainElem ''div'' []) [TextNode [0x20, 0x0A], Element 2 (plainElem ''img'' []) []])"
    unfolding b[THEN conjunct2] by (simp add: plainElem_def)
  have 4: "\<not> hasDependencies (Element 1 (plainElem ''div'' []) [TextNode [0x20, 0x0A], Element 2 (plainElem ''span'' []) []])"
    unfolding c[THEN conjunct2] c[THEN conjunct1] by (simp add: isWhiteSpace_def plainElem_def)
  from 1 2 3 4 show ?thesis by blast
qed

section \<open>The wait primitives\<close>

lemma promises_settle_other:
  "q \<noteq> p \<Longrightarrow> promises (settle p ok w) ! q = promises w ! q"
  by (simp add: settle_def)

lemma length_promises_settle [simp]:
  "length (promises (settle p ok w)) = length (promises w)"
  by (simp add: settle_def)

lemma settle_pending:
  "p < length (promises w) \<Longrightarrow> pstate (promises w ! p) = Pending \<Longrightarrow>
   pstate (promises (settle p ok w) ! p) = (if ok then Fulfilled else Rejected)"
  by (simp add: settle_def)

lemma runListener_other:
  "actionTarget (handler l) \<noteq> p \<Longrightarrow> promises (runListener l w) ! p = promises w ! p"
  by (cases "handler l") (simp_all add: runListener_def promises_settle_other)

lemma length_promises_runListener [simp]:
  "length (promises (runListener l w)) = length (promises w)"
  by (cases "handler l") (simp_all add: runListener_def)

lemma fold_runListener_other:
  "\<forall>l\<in>set ls. actionTarget (handler l) \<noteq> p \<Longrightarrow>
   promises (fold runListener ls w) ! p = promises w ! p"
  by (induction ls arbitrary: w) (simp_all add: runListener_other)

lemma length_promises_fold_runListener [simp]:
  "length (promises (fold runListener ls w)) = length (promises w)"
  by (induction ls arbitrary: w) simp_all

text \<open>Firing an event at a promise that only the last of the listeners run settles.\<close>

lemma fire_settles:
  assumes "\<forall>l\<in>set ls. actionTarget (handler l) \<noteq> p"
    and "p < length (promises w)" and "pstate (promises w ! p) = Pending"
  shows "pstate (promises (fold runListener (ls @ [\<lparr>target = e, eventType = t, handler = Resolve p\<rparr>]) w) ! p) = Fulfilled"
    and "pstate (promises (fold runListener (ls @ [\<lparr>target = e, eventType = t, handler = Reject p\<rparr>]) w) ! p) = Rejected"
  using assms by (simp_all add: runListener_def settle_pending fold_runListener_other)

text \<open>
  C5. The wait for an image is the promise made by the call. When the image is complete
  the promise is fulfilled on return, and no listener is registered (nor is \<open>loading\<close>
  written). Otherwise the promise is pending on return, the image is marked for eager
  loading, a \<^verbatim>\<open>load\<close> and an \<^verbatim>\<open>error\<close> listener are registered, and the promise is
  fulfilled by the \<^verbatim>\<open>load\<close> event and rejected by the \<^verbatim>\<open>error\<close> event.
\<close>

theorem loadImage_wait:
  assumes "wellFormed w" and "loadImage img w = (w', p)"
  shows "p = length (promises w) \<and>
    (complete (props img) \<longrightarrow>
       pstate (promises w' ! p) = Fulfilled \<and> listeners w' = listeners w \<and>
       loading w' = loading w) \<and>
    (\<not> complete (props img) \<longrightarrow>
       pstate (promises w' ! p) = Pending \<and>
       loading w' = (loading w)(nodeId img \<mapsto> ''eager'') \<and>
       listeners w' = listeners w @
         [\<lparr>target = nodeId img, eventType = ''load'', handler = Resolve p\<rparr>,
          \<lparr>target = nodeId img, eventType = ''error'', handler = Reject p\<rparr>] \<and>
       pstate (promises (host (DomEvent (nodeId img) ''load'') w') ! p) = Fulfilled \<and>
       pstate (promises (host (DomEvent (nodeId img) ''error'') w') ! p) = Rejected)"
proof -
  let ?n = "length (promises w)"
  have p: "p = ?n"
    using assms(2) by (auto simp: loadImage_def newPromise_def Let_def split: if_splits)
  have old: "\<forall>l\<in>set (listeners w). actionTarget (handler l) \<noteq> p"
    using assms(1) unfolding wellFormed_def Let_def p by (auto simp: list_all_iff)
  show ?thesis
  proof (cases "complete (props img)")
    case True
    then have "w' = settle ?n True (fst (newPromise w))"
      using assms(2) by (auto simp: loadImage_def newPromise_def Let_def)
    then show ?thesis
      using True p by (simp add: newPromise_def settle_def)
  next
    case False
    let ?ls = "[\<lparr>target = nodeId img, eventType = ''load'', handler = Resolve p\<rparr>,
          \<lparr>target = nodeId img, eventType = ''error'', handler = Reject p\<rparr>]"
    have w': "w' = w\<lparr>promises := promises w @ [\<lparr>pstate = Pending, reactions = [], waiting = []\<rparr>],
        loading := (loading w)(nodeId img \<mapsto> ''eager''),
        listeners := listeners w @ ?ls\<rparr>"
      using assms(2) False by (auto simp: loadImage_def newPromise_def Let_def)
    have pend: "p < length (promises w')" "pstate (promises w' ! p) = Pending"
      by (simp_all add: w' p)
    let ?old = "\<lambda>t. filter (\<lambda>l. target l = nodeId img \<and> eventType l = t) (listeners w)"
    have o: "\<forall>l\<in>set (?old t). actionTarget (handler l) \<noteq> p" for t
      using old by simp
    have "host (DomEvent (nodeId img) ''load'') w' =
        fold runListener (?old ''load'' @ [\<lparr>target = nodeId img, eventType = ''load'', handler = Resolve p\<rparr>]) w'"
      by (simp add: w')
    then have l: "pstate (promises (host (DomEvent (nodeId img) ''load'') w') ! p) = Fulfilled"
      using fire_settles(1)[OF o pend] by simp
    have "host (DomEvent (nodeId img) ''error'') w' =
        fold runListener (?old ''error'' @ [\<lparr>target = nodeId img, eventType = ''error'', handler = Reject p\<rparr>]) w'"
      by (simp add: w')
    then have e: "pstate (promises (host (DomEvent (nodeId img) ''error'') w') ! p) = Rejected"
      using fire_settles(2)[OF o pend] by simp
    show ?thesis using False p pend l e by (simp add: w')
  qed
qed

theorem loadImage_wait_witness:
  "wellFormed emptyWorld \<and>
   pstate (promises (fst (loadImage (Element 7 ((plainElem ''img'' [])\<lparr>complete := True\<rparr>) []) emptyWorld)) ! 1) = Fulfilled \<and>
   listeners (fst (loadImage (Element 7 ((plainElem ''img'' [])\<lparr>complete := True\<rparr>) []) emptyWorld)) = [] \<and>
   pstate (promises (fst (loadImage (Element 7 (plainElem ''img'' []) []) emptyWorld)) ! 1) = Pending \<and>
   pstate (promises (host (DomEvent 7 ''load'') (fst (loadImage (Element 7 (plainElem ''img'' []) []) emptyWorld))) ! 1) = Fulfilled \<and>
   pstate (promises (host (DomEvent 7 ''error'') (fst (loadImage (Element 7 (plainElem ''img'' []) []) emptyWorld))) ! 1) = Rejected"
proof -
  have wf: "wellFormed emptyWorld"
    by (simp add: wellFormed_def emptyWorld_def)
  have a: "snd (loadImage img emptyWorld) = 1" for img
    by (simp add: loadImage_def newPromise_def emptyWorld_def Let_def)
  have e: "length (promises emptyWorld) = 1" "listeners emptyWorld = []"
    by (simp_all add: emptyWorld_def)
  note t = loadImage_wait[OF wf surjective_pairing]
  show ?thesis
    using wf t[of "Element 7 ((plainElem ''img'' [])\<lparr>complete := True\<rparr>) []"]
      t[of "Element 7 (plainElem ''img'' []) []"]
    by (simp add: a e plainElem_def del: host.simps)
qed


text \<open>
  C6. The wait for a video is the promise made by the call. When \<open>readyState\<close> is at least
  2 (the video has the data of the current frame) or the video has a poster, the promise
  is fulfilled on return and no listener is registered. Otherwise it is pending on
  return, a \<^verbatim>\<open>loadeddata\<close> and an \<^verbatim>\<open>error\<close> listener are registered, and the promise is
  fulfilled by the \<^verbatim>\<open>loadeddata\<close> event and rejected by the \<^verbatim>\<open>error\<close> event.
\<close>

theorem loadVideo_wait:
  assumes "wellFormed w" and "loadVideo vid w = (w', p)"
  shows "p = length (promises w) \<and>
    (readyState (props vid) \<ge> 2 \<or> poster (props vid) \<noteq> [] \<longrightarrow>
       pstate (promises w' ! p) = Fulfilled \<and> listeners w' = listeners w) \<and>
    (\<not> (readyState (props vid) \<ge> 2 \<or> poster (props vid) \<noteq> []) \<longrightarrow>
       pstate (promises w' ! p) = Pending \<and>
       listeners w' = listeners w @
         [\<lparr>target = nodeId vid, eventType = ''loadeddata'', handler = Resolve p\<rparr>,
          \<lparr>target = nodeId vid, eventType = ''error'', handler = Reject p\<rparr>] \<and>
       pstate (promises (host (DomEvent (nodeId vid) ''loadeddata'') w') ! p) = Fulfilled \<and>
       pstate (promises (host (DomEvent (nodeId vid) ''error'') w') ! p) = Rejected)"
proof -
  let ?n = "length (promises w)"
  have p: "p = ?n"
    using assms(2) by (auto simp: loadVideo_def newPromise_def Let_def split: if_splits)
  have old: "\<forall>l\<in>set (listeners w). actionTarget (handler l) \<noteq> p"
    using assms(1) unfolding wellFormed_def Let_def p by (auto simp: list_all_iff)
  show ?thesis
  proof (cases "readyState (props vid) \<ge> 2 \<or> poster (props vid) \<noteq> []")
    case True
    then have "w' = settle ?n True (fst (newPromise w))"
      using assms(2) by (auto simp: loadVideo_def newPromise_def Let_def)
    then show ?thesis
      using True p by (simp add: newPromise_def settle_def)
  next
    case False
    let ?ls = "[\<lparr>target = nodeId vid, eventType = ''loadeddata'', handler = Resolve p\<rparr>,
          \<lparr>target = nodeId vid, eventType = ''error'', handler = Reject p\<rparr>]"
    have w': "w' = w\<lparr>promises := promises w @ [\<lparr>pstate = Pending, reactions = [], waiting = []\<rparr>],
        listeners := listeners w @ ?ls\<rparr>"
      using assms(2) False by (auto simp: loadVideo_def newPromise_def Let_def)
    have pend: "p < length (promises w')" "pstate (promises w' ! p) = Pending"
      by (simp_all add: w' p)
    let ?old = "\<lambda>t. filter (\<lambda>l. target l = nodeId vid \<and> eventType l = t) (listeners w)"
    have o: "\<forall>l\<in>set (?old t). actionTarget (handler l) \<noteq> p" for t
      using old by simp
    have "host (DomEvent (nodeId vid) ''loadeddata'') w' =
        fold runListener (?old ''loadeddata'' @ [\<lparr>target = nodeId vid, eventType = ''loadeddata'', handler = Resolve p\<rparr>]) w'"
      by (simp add: w')
    then have l: "pstate (promises (host (DomEvent (nodeId vid) ''loadeddata'') w') ! p) = Fulfilled"
      using fire_settles(1)[OF o pend] by simp
    have "host (DomEvent (nodeId vid) ''error'') w' =
        fold runListener (?old ''error'' @ [\<lparr>target = nodeId vid, eventType = ''error'', handler = Reject p\<rparr>]) w'"
      by (simp add: w')
    then have e: "pstate (promises (host (DomEvent (nodeId vid) ''error'') w') ! p) = Rejected"
      using fire_settles(2)[OF o pend] by simp
    show ?thesis using False p pend l e by (simp add: w')
  qed
qed

theorem loadVideo_wait_witness:
  "wellFormed emptyWorld \<and>
   pstate (promises (fst (loadVideo (Element 7 ((plainElem ''video'' [])\<lparr>readyState := 2\<rparr>) []) emptyWorld)) ! 1) = Fulfilled \<and>
   pstate (promises (fst (loadVideo (Element 7 ((plainElem ''video'' [])\<lparr>poster := ''p.png''\<rparr>) []) emptyWorld)) ! 1) = Fulfilled \<and>
   listeners (fst (loadVideo (Element 7 ((plainElem ''video'' [])\<lparr>poster := ''p.png''\<rparr>) []) emptyWorld)) = [] \<and>
   pstate (promises (fst (loadVideo (Element 7 ((plainElem ''video'' [])\<lparr>readyState := 1\<rparr>) []) emptyWorld)) ! 1) = Pending \<and>
   pstate (promises (host (DomEvent 7 ''loadeddata'') (fst (loadVideo (Element 7 ((plainElem ''video'' [])\<lparr>readyState := 1\<rparr>) []) emptyWorld))) ! 1) = Fulfilled \<and>
   pstate (promises (host (DomEvent 7 ''error'') (fst (loadVideo (Element 7 ((plainElem ''video'' [])\<lparr>readyState := 1\<rparr>) []) emptyWorld))) ! 1) = Rejected"
proof -
  have wf: "wellFormed emptyWorld"
    by (simp add: wellFormed_def emptyWorld_def)
  have a: "snd (loadVideo vid emptyWorld) = 1" for vid
    by (simp add: loadVideo_def newPromise_def emptyWorld_def Let_def)
  have e: "length (promises emptyWorld) = 1" "listeners emptyWorld = []"
    by (simp_all add: emptyWorld_def)
  note t = loadVideo_wait[OF wf surjective_pairing]
  show ?thesis
    using wf t[of "Element 7 ((plainElem ''video'' [])\<lparr>readyState := 2\<rparr>) []"]
      t[of "Element 7 ((plainElem ''video'' [])\<lparr>poster := ''p.png''\<rparr>) []"]
      t[of "Element 7 ((plainElem ''video'' [])\<lparr>readyState := 1\<rparr>) []"]
    by (simp add: a e plainElem_def del: host.simps)
qed

section \<open>The font wait\<close>

lemma find_app:
  "find P (xs @ ys) = (case find P xs of None \<Rightarrow> find P ys | Some x \<Rightarrow> Some x)"
  by (induction xs) simp_all

lemma find_SomeD: "find P xs = Some x \<Longrightarrow> P x \<and> x \<in> set xs"
  by (induction xs) (auto split: if_splits)

lemma fold_upd_lookup:
  "fold (\<lambda>f m. m(key f \<mapsto> f)) fs m0 k =
     (case find (\<lambda>f. key f = k) (rev fs) of None \<Rightarrow> m0 k | Some f \<Rightarrow> Some f)"
  by (induction fs arbitrary: m0) (auto simp: find_app split: option.splits)

lemma loadedFontsMap_lookup:
  "loadedFontsMap w k = find (\<lambda>f. faceKey f = k) (rev (fonts w))"
  by (simp add: loadedFontsMap_def fold_upd_lookup split: option.splits)

lemma loadEach_fonts:
  assumes "\<And>x w. fonts (fst (f x w)) = fonts w \<and> fontsReady (fst (f x w)) = fontsReady w"
  shows "fonts (fst (loadEach f xs w)) = fonts w \<and> fontsReady (fst (loadEach f xs w)) = fontsReady w"
proof (induction xs arbitrary: w)
  case Nil
  show ?case by simp
next
  case (Cons x xs)
  show ?case
    using assms[of x w] Cons[of "fst (f x w)"] by (simp add: split_beta Let_def)
qed

lemma length_loadEach: "length (snd (loadEach f xs w)) = length xs"
  by (induction xs arbitrary: w) (simp_all add: split_beta Let_def)

lemma fonts_settle [simp]: "fonts (settle p ok w) = fonts w" "fontsReady (settle p ok w) = fontsReady w"
  by (simp_all add: settle_def)

lemma loadImage_fonts:
  "fonts (fst (loadImage x w)) = fonts w \<and> fontsReady (fst (loadImage x w)) = fontsReady w"
  by (simp add: loadImage_def newPromise_def Let_def)

lemma loadVideo_fonts:
  "fonts (fst (loadVideo x w)) = fonts w \<and> fontsReady (fst (loadVideo x w)) = fontsReady w"
  by (simp add: loadVideo_def newPromise_def Let_def)

lemma loadFonts_cong:
  "fontsReady w' = fontsReady w \<Longrightarrow> loadFonts s m w' = loadFonts s m w"
  by (simp add: loadFonts_def split: option.splits)

lemma collectWaits_fonts:
  "\<exists>ps. length ps = length (getElementsByTagName element ''img'') +
                    length (getElementsByTagName element ''video'') \<and>
     snd (collectWaits element w) =
       ps @ map (\<lambda>s. loadFonts s (loadedFontsMap w) w) (getElementsByTagName element ''span'')"
proof -
  let ?w1 = "fst (loadEach loadImage (getElementsByTagName element ''img'') w)"
  let ?w2 = "fst (loadEach loadVideo (getElementsByTagName element ''video'') ?w1)"
  have f: "fonts ?w2 = fonts w" "fontsReady ?w2 = fontsReady w"
    using loadEach_fonts[of loadImage, OF loadImage_fonts] loadEach_fonts[of loadVideo, OF loadVideo_fonts]
    by simp_all
  then have m: "loadedFontsMap ?w2 = loadedFontsMap w"
    by (simp add: loadedFontsMap_def)
  show ?thesis
    by (rule exI[of _ "snd (loadEach loadImage (getElementsByTagName element ''img'') w) @
           snd (loadEach loadVideo (getElementsByTagName element ''video'') ?w1)"])
       (simp add: collectWaits_def split_beta Let_def m length_loadEach loadFonts_cong[OF f(2)])
qed

text \<open>
  C7. The font wait of a text run looks the key made of the element's computed font
  family, style and weight up in the map of the font faces. When the key is there, the
  wait is the \<open>loaded\<close> promise of the face found, a face of \<^verbatim>\<open>document.fonts\<close> with that
  key; when no face has the key, the wait is \<^verbatim>\<open>document.fonts.ready\<close>. In one pass of the
  aggregator every font wait uses the same map, the one of the fonts at the call.
\<close>

theorem loadFonts_lookup:
  "(\<forall>f. loadedFontsMap w (fontFamily (props s) @ ''_'' @ fontStyle (props s) @ ''_'' @ fontWeight (props s)) = Some f \<longrightarrow>
        loadFonts s (loadedFontsMap w) w = loaded f \<and> f \<in> set (fonts w) \<and>
        faceKey f = fontFamily (props s) @ ''_'' @ fontStyle (props s) @ ''_'' @ fontWeight (props s)) \<and>
   (loadedFontsMap w (fontFamily (props s) @ ''_'' @ fontStyle (props s) @ ''_'' @ fontWeight (props s)) = None \<longrightarrow>
        loadFonts s (loadedFontsMap w) w = fontsReady w \<and>
        (\<forall>f\<in>set (fonts w). faceKey f \<noteq> fontFamily (props s) @ ''_'' @ fontStyle (props s) @ ''_'' @ fontWeight (props s))) \<and>
   (\<exists>ps. length ps = length (getElementsByTagName element ''img'') +
                    length (getElementsByTagName element ''video'') \<and>
     snd (collectWaits element w) =
       ps @ map (\<lambda>s. loadFonts s (loadedFontsMap w) w) (getElementsByTagName element ''span''))"
proof -
  let ?k = "fontFamily (props s) @ ''_'' @ fontStyle (props s) @ ''_'' @ fontWeight (props s)"
  have a: "loadFonts s (loadedFontsMap w) w = loaded f \<and> f \<in> set (fonts w) \<and> faceKey f = ?k"
    if "loadedFontsMap w ?k = Some f" for f
  proof -
    from that have "find (\<lambda>f. faceKey f = ?k) (rev (fonts w)) = Some f"
      by (simp add: loadedFontsMap_lookup)
    then have "f \<in> set (fonts w) \<and> faceKey f = ?k"
      by (auto dest: find_SomeD)
    then show ?thesis using that by (simp add: loadFonts_def)
  qed
  have b: "loadFonts s (loadedFontsMap w) w = fontsReady w \<and> (\<forall>f\<in>set (fonts w). faceKey f \<noteq> ?k)"
    if "loadedFontsMap w ?k = None"
  proof -
    from that have "find (\<lambda>f. faceKey f = ?k) (rev (fonts w)) = None"
      by (simp add: loadedFontsMap_lookup)
    then have "\<forall>f\<in>set (fonts w). faceKey f \<noteq> ?k"
      by (auto simp: find_None_iff)
    then show ?thesis using that by (simp add: loadFonts_def)
  qed
  from a b collectWaits_fonts[of element w] show ?thesis by blast
qed


theorem loadFonts_lookup_witness:
  "loadedFontsMap fontWorld ''serif_normal_400'' =
     Some \<lparr>family = ''serif'', style = ''normal'', weight = ''400'', loaded = 1\<rparr> \<and>
   loadFonts (Element 3 (plainElem ''span'' []) []) (loadedFontsMap fontWorld) fontWorld = 1 \<and>
   loadedFontsMap fontWorld ''mono_normal_400'' = None \<and>
   loadFonts (Element 4 ((plainElem ''span'' [])\<lparr>fontFamily := ''mono''\<rparr>) []) (loadedFontsMap fontWorld) fontWorld = 0"
proof -
  let ?f = "\<lparr>family = ''serif'', style = ''normal'', weight = ''400'', loaded = 1\<rparr>"
  let ?s = "Element 3 (plainElem ''span'' []) []"
  let ?m = "Element 4 ((plainElem ''span'' [])\<lparr>fontFamily := ''mono''\<rparr>) []"
  have k1: "loadedFontsMap fontWorld ''serif_normal_400'' = Some ?f"
    and k2: "loadedFontsMap fontWorld ''mono_normal_400'' = None"
    by (simp_all add: loadedFontsMap_def faceKey_def fontWorld_def emptyWorld_def)
  have p1: "fontFamily (props ?s) @ ''_'' @ fontStyle (props ?s) @ ''_'' @ fontWeight (props ?s) = ''serif_normal_400''"
    and p2: "fontFamily (props ?m) @ ''_'' @ fontStyle (props ?m) @ ''_'' @ fontWeight (props ?m) = ''mono_normal_400''"
    by (simp_all add: plainElem_def)
  have r: "fontsReady fontWorld = 0"
    by (simp add: fontWorld_def emptyWorld_def)
  from loadFonts_lookup[of fontWorld ?s, unfolded p1] k1
  have a: "loadFonts ?s (loadedFontsMap fontWorld) fontWorld = 1" by simp
  from loadFonts_lookup[of fontWorld ?m, unfolded p2] k2 r
  have b: "loadFonts ?m (loadedFontsMap fontWorld) fontWorld = 0" by simp
  from k1 k2 a b show ?thesis by blast
qed


section \<open>What the dispatcher leaves alone\<close>

lemma sameHost_refl [simp]: "sameHost w w"
  by (simp add: sameHost_def)

lemma sameHost_trans: "sameHost w w' \<Longrightarrow> sameHost w' w'' \<Longrightarrow> sameHost w w''"
  by (simp add: sameHost_def)

















section \<open>The visibility observer is one-shot\<close>
















section \<open>Observing the promise heap\<close>

text \<open>
  The state of a promise, whether a reaction is attached to it, whether a job is in the
  microtask queue, the indices an aggregate still waits for, and whether an element has
  a frame requested or is running. The effect of each primitive is stated on these.
\<close>

definition st :: "world \<Rightarrow> nat \<Rightarrow> pstate" where
  "st w p = pstate (promises w ! p)"

definition attached :: "world \<Rightarrow> nat \<Rightarrow> reaction \<Rightarrow> bool" where
  "attached w p x = (p < length (promises w) \<and> x \<in> set (reactions (promises w ! p)))"

definition inQueue :: "world \<Rightarrow> job \<Rightarrow> bool" where
  "inQueue w j = (j \<in> set (microtasks w))"

definition waitingOf :: "world \<Rightarrow> nat \<Rightarrow> nat list" where
  "waitingOf w p = waiting (promises w ! p)"

definition running :: "world \<Rightarrow> nat \<Rightarrow> bool" where
  "running w e = (animationPlayState w e = Some ''running'')"

definition requested :: "world \<Rightarrow> nat \<Rightarrow> bool" where
  "requested w e = (e \<in> set (frames w))"

lemma settle_noop:
  "\<not> (p < length (promises w) \<and> st w p = Pending) \<Longrightarrow> settle p ok w = w"
  by (auto simp: st_def settle_def)

lemma st_settle:
  "p < length (promises w) \<Longrightarrow> st w p = Pending \<Longrightarrow>
   st (settle p ok w) q = (if q = p then (if ok then Fulfilled else Rejected) else st w q)"
  by (simp add: st_def settle_def)

lemma attached_settle:
  "p < length (promises w) \<Longrightarrow> st w p = Pending \<Longrightarrow>
   attached (settle p ok w) q x = (attached w q x \<and> q \<noteq> p)"
  by (auto simp: attached_def st_def settle_def nth_list_update)

lemma inQueue_settle:
  "p < length (promises w) \<Longrightarrow> st w p = Pending \<Longrightarrow>
   inQueue (settle p ok w) j = (inQueue w j \<or> (\<exists>x. j = React x ok \<and> attached w p x))"
  by (auto simp: inQueue_def attached_def st_def settle_def)

lemma waitingOf_settle: "waitingOf (settle p ok w) q = waitingOf w q"
  by (simp add: waitingOf_def settle_def nth_list_update)

lemma misc_settle:
  "length (promises (settle p ok w)) = length (promises w)"
  "requested (settle p ok w) e = requested w e"
  "running (settle p ok w) e = running w e"
  "listeners (settle p ok w) = listeners w"
  "fonts (settle p ok w) = fonts w"
  "fontsReady (settle p ok w) = fontsReady w"
  by (simp_all add: settle_def requested_def running_def)

lemma st_subscribe: "st (subscribe p x w) q = st w q"
  by (simp add: st_def subscribe_def nth_list_update split: pstate.splits)

lemma attached_subscribe:
  "attached (subscribe p x w) q y =
     (attached w q y \<or> (q = p \<and> y = x \<and> p < length (promises w) \<and> st w p = Pending))"
  by (auto simp: attached_def st_def subscribe_def nth_list_update split: pstate.splits)

lemma inQueue_subscribe:
  "inQueue (subscribe p x w) j =
     (inQueue w j \<or> (p < length (promises w) \<and> st w p \<noteq> Pending \<and> j = React x (st w p = Fulfilled)))"
  by (auto simp: inQueue_def st_def subscribe_def split: pstate.splits)

lemma waitingOf_subscribe: "waitingOf (subscribe p x w) q = waitingOf w q"
  by (simp add: waitingOf_def subscribe_def nth_list_update split: pstate.splits)

lemma misc_subscribe:
  "length (promises (subscribe p x w)) = length (promises w)"
  "requested (subscribe p x w) e = requested w e"
  "running (subscribe p x w) e = running w e"
  "listeners (subscribe p x w) = listeners w"
  "fonts (subscribe p x w) = fonts w"
  "fontsReady (subscribe p x w) = fontsReady w"
  by (simp_all add: subscribe_def requested_def running_def split: pstate.splits)

lemma obs_markDone:
  "st (markDone a i w) q = st w q"
  "attached (markDone a i w) q x = attached w q x"
  "inQueue (markDone a i w) j = inQueue w j"
  "waitingOf (markDone a i w) q =
     (if q = a \<and> a < length (promises w) then removeAll i (waitingOf w a) else waitingOf w q)"
  "length (promises (markDone a i w)) = length (promises w)"
  "requested (markDone a i w) e = requested w e"
  "running (markDone a i w) e = running w e"
  "listeners (markDone a i w) = listeners w"
  "fonts (markDone a i w) = fonts w"
  "fontsReady (markDone a i w) = fontsReady w"
  by (auto simp: st_def attached_def inQueue_def waitingOf_def markDone_def requested_def
      running_def nth_list_update)

lemma obs_requestAnimationFrame:
  "st (requestAnimationFrame e w) q = st w q"
  "attached (requestAnimationFrame e w) q x = attached w q x"
  "inQueue (requestAnimationFrame e w) j = inQueue w j"
  "waitingOf (requestAnimationFrame e w) q = waitingOf w q"
  "length (promises (requestAnimationFrame e w)) = length (promises w)"
  "requested (requestAnimationFrame e w) e' = (requested w e' \<or> e' = e)"
  "running (requestAnimationFrame e w) e' = running w e'"
  "listeners (requestAnimationFrame e w) = listeners w"
  "fonts (requestAnimationFrame e w) = fonts w"
  "fontsReady (requestAnimationFrame e w) = fontsReady w"
  by (auto simp: st_def attached_def inQueue_def waitingOf_def requestAnimationFrame_def
      requested_def running_def)

lemma obs_pop:
  "st (w\<lparr>microtasks := js\<rparr>) q = st w q"
  "attached (w\<lparr>microtasks := js\<rparr>) q x = attached w q x"
  "inQueue (w\<lparr>microtasks := js\<rparr>) j = (j \<in> set js)"
  "waitingOf (w\<lparr>microtasks := js\<rparr>) q = waitingOf w q"
  "requested (w\<lparr>microtasks := js\<rparr>) e = requested w e"
  "running (w\<lparr>microtasks := js\<rparr>) e = running w e"
  by (simp_all add: st_def attached_def inQueue_def waitingOf_def requested_def running_def)

lemma fold_runFrame:
  "fold runFrame es w =
     w\<lparr>animationPlayState :=
         (\<lambda>x. if x \<in> set es then Some ''running'' else animationPlayState w x)\<rparr>"
proof (induction es arbitrary: w)
  case Nil
  show ?case by simp
next
  case (Cons e es)
  show ?case
    unfolding fold_simps Cons.IH by (auto simp: runFrame_def fun_eq_iff)
qed

lemma obs_runFrames:
  "st (fold runFrame es w) q = st w q"
  "attached (fold runFrame es w) q x = attached w q x"
  "inQueue (fold runFrame es w) j = inQueue w j"
  "waitingOf (fold runFrame es w) q = waitingOf w q"
  "length (promises (fold runFrame es w)) = length (promises w)"
  "requested (fold runFrame es w) e = requested w e"
  "running (fold runFrame es w) e = (running w e \<or> e \<in> set es)"
  "listeners (fold runFrame es w) = listeners w"
  "fonts (fold runFrame es w) = fonts w"
  "fontsReady (fold runFrame es w) = fontsReady w"
  unfolding fold_runFrame
  by (auto simp: st_def attached_def inQueue_def waitingOf_def requested_def running_def)


text \<open>
  One call of the dispatcher that waits: its element, the promise of the call, the
  promise of \<^verbatim>\<open>loadElementResources\<close>, the aggregate of \<^verbatim>\<open>Promise.all\<close> and its members.
  \<open>source\<close> gives, for each reaction that the call attaches, the promise it is attached
  to; a reaction concerns the call when it settles one of the call's promises or resumes
  a call for its element. The call is safe in a state when its promises are in the heap
  and distinct, every reaction and job that concerns it is one of its own, in the place
  and with the outcome of its source, no listener or host promise is one of its
  promises, the aggregate has counted exactly fulfilled members, and each promise of the
  chain took the outcome of the one before.
\<close>

record call =
  callElem :: nat
  callPromise :: nat
  loadPromise :: nat
  aggregate :: nat
  waits :: "nat list"

definition ownPromises :: "call \<Rightarrow> nat set" where
  "ownPromises c = {callPromise c, loadPromise c, aggregate c}"

fun source :: "call \<Rightarrow> reaction \<Rightarrow> nat option" where
  "source c (AllMember a i) =
     (if a = aggregate c \<and> i < length (waits c) then Some (waits c ! i) else None)"
| "source c (Adopt t) = (if t = loadPromise c then Some (aggregate c) else None)"
| "source c (Resume e t) =
     (if e = callElem c \<and> t = callPromise c then Some (loadPromise c) else None)"

fun concerns :: "call \<Rightarrow> reaction \<Rightarrow> bool" where
  "concerns c (AllMember a i) = (a \<in> ownPromises c)"
| "concerns c (Adopt t) = (t \<in> ownPromises c)"
| "concerns c (Resume e t) = (t \<in> ownPromises c \<or> e = callElem c)"

definition inHeap :: "call \<Rightarrow> world \<Rightarrow> bool" where
  "inHeap c w =
    (callPromise c < length (promises w) \<and> loadPromise c < length (promises w) \<and>
     aggregate c < length (promises w) \<and> (\<forall>m\<in>set (waits c). m < length (promises w)) \<and>
     callPromise c \<noteq> loadPromise c \<and> callPromise c \<noteq> aggregate c \<and>
     loadPromise c \<noteq> aggregate c \<and>
     (\<forall>m\<in>set (waits c). m \<notin> ownPromises c))"

definition placed :: "call \<Rightarrow> world \<Rightarrow> bool" where
  "placed c w =
    ((\<forall>p x. attached w p x \<longrightarrow> concerns c x \<longrightarrow> source c x = Some p) \<and>
     (\<forall>x. \<not> attached w (callPromise c) x))"

definition queued :: "call \<Rightarrow> world \<Rightarrow> bool" where
  "queued c w =
    ((\<forall>x ok. inQueue w (React x ok) \<longrightarrow> concerns c x \<longrightarrow>
        (\<exists>s. source c x = Some s \<and> st w s \<noteq> Pending \<and> ok = (st w s = Fulfilled))) \<and>
     (\<forall>s t. inQueue w (ThenJob s t) \<longrightarrow> t \<in> ownPromises c \<or> s = callPromise c \<longrightarrow>
        s = aggregate c \<and> t = loadPromise c))"

definition hostApart :: "call \<Rightarrow> world \<Rightarrow> bool" where
  "hostApart c w =
    ((\<forall>li\<in>set (listeners w). actionTarget (handler li) \<notin> ownPromises c) \<and>
     (\<forall>f\<in>set (fonts w). loaded f \<notin> ownPromises c) \<and>
     fontsReady w \<notin> ownPromises c)"

definition counted :: "call \<Rightarrow> world \<Rightarrow> bool" where
  "counted c w =
    (set (waitingOf w (aggregate c)) \<subseteq> {..<length (waits c)} \<and>
     (\<forall>i<length (waits c). i \<notin> set (waitingOf w (aggregate c)) \<longrightarrow>
        st w (waits c ! i) = Fulfilled) \<and>
     (st w (aggregate c) = Fulfilled \<longrightarrow> waitingOf w (aggregate c) = []) \<and>
     (st w (aggregate c) = Rejected \<longrightarrow> (\<exists>m\<in>set (waits c). st w m = Rejected)))"

definition chained :: "call \<Rightarrow> world \<Rightarrow> bool" where
  "chained c w =
    ((st w (loadPromise c) \<noteq> Pending \<longrightarrow> st w (loadPromise c) = st w (aggregate c)) \<and>
     (st w (callPromise c) \<noteq> Pending \<longrightarrow> st w (callPromise c) = st w (loadPromise c)) \<and>
     (requested w (callElem c) \<or> running w (callElem c) \<longrightarrow>
        st w (loadPromise c) = Fulfilled))"

definition safe :: "call \<Rightarrow> world \<Rightarrow> bool" where
  "safe c w =
     (inHeap c w \<and> placed c w \<and> queued c w \<and> hostApart c w \<and> counted c w \<and> chained c w)"

lemmas obs_settle = st_settle attached_settle inQueue_settle waitingOf_settle misc_settle
lemmas obs_subscribe = st_subscribe attached_subscribe inQueue_subscribe waitingOf_subscribe misc_subscribe

text \<open>Settling a promise, where the outcome is the one its sources justify.\<close>

definition justified :: "call \<Rightarrow> world \<Rightarrow> nat \<Rightarrow> bool \<Rightarrow> bool" where
  "justified c w p ok =
    ((p = aggregate c \<and> ok \<longrightarrow> waitingOf w (aggregate c) = []) \<and>
     (p = aggregate c \<and> \<not> ok \<longrightarrow> (\<exists>m\<in>set (waits c). st w m = Rejected)) \<and>
     (p = loadPromise c \<longrightarrow>
        st w (aggregate c) \<noteq> Pending \<and> ok = (st w (aggregate c) = Fulfilled)) \<and>
     (p = callPromise c \<longrightarrow>
        st w (loadPromise c) \<noteq> Pending \<and> ok = (st w (loadPromise c) = Fulfilled)))"

lemma inHeap_settle: "inHeap c w \<Longrightarrow> inHeap c (settle p ok w)"
  by (simp add: inHeap_def misc_settle)

lemma hostApart_settle: "hostApart c w \<Longrightarrow> hostApart c (settle p ok w)"
  by (simp add: hostApart_def misc_settle)

lemma placed_settle:
  assumes "placed c w" and p: "p < length (promises w)" "st w p = Pending"
  shows "placed c (settle p ok w)"
  using assms(1) unfolding placed_def attached_settle[OF p] by blast

lemma queued_settle:
  assumes "placed c w" "queued c w" and p: "p < length (promises w)" "st w p = Pending"
  shows "queued c (settle p ok w)"
proof -
  have 1: "\<exists>s. source c x = Some s \<and> st (settle p ok w) s \<noteq> Pending \<and>
              ok' = (st (settle p ok w) s = Fulfilled)"
    if io: "inQueue (settle p ok w) (React x ok')" and co: "concerns c x" for x ok'
  proof (cases "inQueue w (React x ok')")
    case True
    then obtain s where s: "source c x = Some s" "st w s \<noteq> Pending" "ok' = (st w s = Fulfilled)"
      using assms(2) co unfolding queued_def by blast
    then have "s \<noteq> p" using p by auto
    then show ?thesis using s by (auto simp: st_settle[OF p])
  next
    case False
    then have "ok' = ok" "attached w p x"
      using io by (auto simp: inQueue_settle[OF p])
    moreover from this have "source c x = Some p"
      using assms(1) co unfolding placed_def by blast
    ultimately show ?thesis by (auto simp: st_settle[OF p])
  qed
  have 2: "s = aggregate c \<and> t = loadPromise c"
    if "inQueue (settle p ok w) (ThenJob s t)" "t \<in> ownPromises c \<or> s = callPromise c" for s t
    using that assms(2) unfolding queued_def by (auto simp: inQueue_settle[OF p])
  from 1 2 show ?thesis unfolding queued_def by blast
qed

lemma counted_settle:
  assumes "counted c w" "justified c w p ok" and p: "p < length (promises w)" "st w p = Pending"
  shows "counted c (settle p ok w)"
proof -
  have s: "st w q \<noteq> Pending \<Longrightarrow> st (settle p ok w) q = st w q" for q
    using p by (auto simp: st_settle[OF p])
  have 1: "st (settle p ok w) (waits c ! i) = Fulfilled"
    if "i < length (waits c)" "i \<notin> set (waitingOf w (aggregate c))" for i
    using that assms(1) s[of "waits c ! i"] unfolding counted_def by simp
  have 2: "waitingOf w (aggregate c) = []" if "st (settle p ok w) (aggregate c) = Fulfilled"
    using that assms(1,2) unfolding counted_def justified_def
    by (auto simp: st_settle[OF p] split: if_splits)
  have 3: "\<exists>m\<in>set (waits c). st (settle p ok w) m = Rejected"
    if "st (settle p ok w) (aggregate c) = Rejected"
  proof -
    have "\<exists>m\<in>set (waits c). st w m = Rejected"
      using that assms(1,2) unfolding counted_def justified_def
      by (auto simp: st_settle[OF p] split: if_splits)
    then obtain m where m: "m \<in> set (waits c)" "st w m = Rejected" by blast
    then have "st (settle p ok w) m = Rejected" using s[of m] by simp
    then show ?thesis using m(1) by blast
  qed
  from 1 2 3 assms(1) show ?thesis
    unfolding counted_def waitingOf_settle by blast
qed

lemma chained_settle:
  assumes "chained c w" "justified c w p ok" "inHeap c w"
    and p: "p < length (promises w)" "st w p = Pending"
  shows "chained c (settle p ok w)"
proof -
  have d: "callPromise c \<noteq> loadPromise c" "callPromise c \<noteq> aggregate c"
    "loadPromise c \<noteq> aggregate c"
    using assms(3) by (simp_all add: inHeap_def)
  show ?thesis
    using assms(1,2) p d unfolding chained_def justified_def st_settle[OF p] misc_settle
    by (cases "st w (aggregate c)"; cases "st w (loadPromise c)"; cases ok) auto
qed

lemma safe_settle:
  assumes "safe c w" and "justified c w p ok"
  shows "safe c (settle p ok w)"
proof (cases "p < length (promises w) \<and> st w p = Pending")
  case False
  then show ?thesis using assms(1) by (simp add: settle_noop)
next
  case True
  then have p: "p < length (promises w)" "st w p = Pending" by simp_all
  show ?thesis
    using assms unfolding safe_def
    by (simp add: inHeap_settle hostApart_settle placed_settle[OF _ p] queued_settle[OF _ _ p]
        counted_settle[OF _ _ p] chained_settle[OF _ _ _ p])
qed

lemma justified_other: "p \<notin> ownPromises c \<Longrightarrow> justified c w p ok"
  by (auto simp: justified_def ownPromises_def)

section \<open>Safety of one call of the dispatcher is kept by the host\<close>

lemma safe_pop:
  assumes "safe c w" and "microtasks w = j # js"
  shows "safe c (w\<lparr>microtasks := js\<rparr>)"
proof -
  have i: "inQueue (w\<lparr>microtasks := js\<rparr>) x \<Longrightarrow> inQueue w x" for x
    using assms(2) by (simp add: inQueue_def)
  have "inHeap c (w\<lparr>microtasks := js\<rparr>)" "placed c (w\<lparr>microtasks := js\<rparr>)"
    "hostApart c (w\<lparr>microtasks := js\<rparr>)" "counted c (w\<lparr>microtasks := js\<rparr>)"
    "chained c (w\<lparr>microtasks := js\<rparr>)"
    using assms(1)
    by (simp_all add: safe_def inHeap_def placed_def hostApart_def counted_def chained_def
        obs_pop)
  moreover have "queued c (w\<lparr>microtasks := js\<rparr>)"
    using assms(1) i unfolding safe_def queued_def obs_pop(1) by blast
  ultimately show ?thesis by (simp add: safe_def)
qed

lemma safe_markDone_other:
  assumes "safe c w" and "a \<noteq> aggregate c"
  shows "safe c (markDone a i w)"
  using assms
  by (simp add: safe_def inHeap_def placed_def queued_def hostApart_def counted_def
      chained_def obs_markDone)

lemma counted_markDone:
  assumes "counted c w" and "i < length (waits c)" and "st w (waits c ! i) = Fulfilled"
  shows "counted c (markDone (aggregate c) i w)"
proof -
  let ?w = "markDone (aggregate c) i w"
  have s: "set (waitingOf ?w (aggregate c)) \<subseteq> set (waitingOf w (aggregate c))"
    by (auto simp: obs_markDone)
  have 1: "set (waitingOf ?w (aggregate c)) \<subseteq> {..<length (waits c)}"
    using s assms(1) unfolding counted_def by blast
  have 2: "st ?w (waits c ! k) = Fulfilled"
    if "k < length (waits c)" "k \<notin> set (waitingOf ?w (aggregate c))" for k
  proof (cases "k = i")
    case True
    then show ?thesis using assms(3) by (simp add: obs_markDone)
  next
    case False
    then have "k \<notin> set (waitingOf w (aggregate c))"
      using that(2) by (auto simp: obs_markDone split: if_splits)
    then show ?thesis using that(1) assms(1) unfolding counted_def by (simp add: obs_markDone)
  qed
  have 3: "waitingOf ?w (aggregate c) = []" if "st ?w (aggregate c) = Fulfilled"
    using that assms(1) unfolding counted_def by (simp add: obs_markDone)
  have 4: "\<exists>m\<in>set (waits c). st ?w m = Rejected" if "st ?w (aggregate c) = Rejected"
    using that assms(1) unfolding counted_def by (simp add: obs_markDone)
  from 1 2 3 4 show ?thesis unfolding counted_def by blast
qed

lemma safe_markDone_own:
  assumes "safe c w" and "i < length (waits c)" and "st w (waits c ! i) = Fulfilled"
  shows "safe c (markDone (aggregate c) i w)"
proof -
  have "counted c (markDone (aggregate c) i w)"
    using assms by (intro counted_markDone) (simp_all add: safe_def)
  moreover have "inHeap c (markDone (aggregate c) i w)" "placed c (markDone (aggregate c) i w)"
    "queued c (markDone (aggregate c) i w)" "hostApart c (markDone (aggregate c) i w)"
    "chained c (markDone (aggregate c) i w)"
    using assms(1)
    by (simp_all add: safe_def inHeap_def placed_def queued_def hostApart_def chained_def
        obs_markDone)
  ultimately show ?thesis by (simp add: safe_def)
qed

lemma safe_requestAnimationFrame:
  assumes "safe c w" and "e = callElem c \<Longrightarrow> st w (loadPromise c) = Fulfilled"
  shows "safe c (requestAnimationFrame e w)"
proof -
  have "chained c (requestAnimationFrame e w)"
    using assms unfolding safe_def chained_def obs_requestAnimationFrame by blast
  moreover have "inHeap c (requestAnimationFrame e w)" "placed c (requestAnimationFrame e w)"
    "queued c (requestAnimationFrame e w)" "hostApart c (requestAnimationFrame e w)"
    "counted c (requestAnimationFrame e w)"
    using assms(1)
    by (simp_all add: safe_def inHeap_def placed_def queued_def hostApart_def counted_def
        obs_requestAnimationFrame)
  ultimately show ?thesis by (simp add: safe_def)
qed

lemma safe_subscribe:
  assumes "safe c w"
    and "concerns c x \<Longrightarrow> source c x = Some p"
    and "p \<noteq> callPromise c"
  shows "safe c (subscribe p x w)"
proof -
  let ?w = "subscribe p x w"
  have pl: "placed c w" and qu: "queued c w" using assms(1) by (simp_all add: safe_def)
  have 1: "placed c ?w"
    using pl assms(2,3) unfolding placed_def attached_subscribe by blast
  have 2: "\<exists>s. source c y = Some s \<and> st ?w s \<noteq> Pending \<and> ok = (st ?w s = Fulfilled)"
    if io: "inQueue ?w (React y ok)" and co: "concerns c y" for y ok
  proof (cases "inQueue w (React y ok)")
    case True
    then show ?thesis using qu co unfolding queued_def st_subscribe by blast
  next
    case False
    then have "y = x" "st w p \<noteq> Pending" "ok = (st w p = Fulfilled)"
      using io by (auto simp: inQueue_subscribe)
    then show ?thesis using assms(2) co by (simp add: st_subscribe)
  qed
  have 3: "s = aggregate c \<and> t = loadPromise c"
    if "inQueue ?w (ThenJob s t)" "t \<in> ownPromises c \<or> s = callPromise c" for s t
    using that qu unfolding queued_def by (auto simp: inQueue_subscribe)
  have "queued c ?w" using 2 3 unfolding queued_def by blast
  moreover have "inHeap c ?w" "hostApart c ?w" "counted c ?w" "chained c ?w"
    using assms(1)
    by (simp_all add: safe_def inHeap_def hostApart_def counted_def chained_def obs_subscribe)
  ultimately show ?thesis using 1 by (simp add: safe_def)
qed

lemma safe_frame:
  assumes "safe c w"
  shows "safe c (host AnimationFrame w)"
proof -
  let ?w = "fold runFrame (frames w) (w\<lparr>frames := []\<rparr>)"
  have o: "st (w\<lparr>frames := []\<rparr>) = st w" "attached (w\<lparr>frames := []\<rparr>) = attached w"
    "inQueue (w\<lparr>frames := []\<rparr>) = inQueue w" "waitingOf (w\<lparr>frames := []\<rparr>) = waitingOf w"
    "running (w\<lparr>frames := []\<rparr>) = running w" "\<not> requested (w\<lparr>frames := []\<rparr>) e" for e
    by (simp_all add: fun_eq_iff st_def attached_def inQueue_def waitingOf_def running_def
        requested_def)
  have "chained c ?w"
    using assms unfolding safe_def chained_def obs_runFrames o
    by (auto simp: requested_def)
  moreover have "inHeap c ?w" "placed c ?w" "queued c ?w" "hostApart c ?w" "counted c ?w"
    using assms(1)
    by (simp_all add: safe_def inHeap_def placed_def queued_def hostApart_def counted_def
        obs_runFrames o)
  ultimately show ?thesis by (simp add: safe_def)
qed


lemma safe_runJob:
  assumes "safe c w" and "microtasks w = j # js"
  shows "safe c (runJob j (w\<lparr>microtasks := js\<rparr>))"
proof -
  let ?w = "w\<lparr>microtasks := js\<rparr>"
  have s1: "safe c ?w" using assms by (rule safe_pop)
  have inq: "inQueue w j" using assms(2) by (simp add: inQueue_def)
  have qu: "queued c w" and ih: "inHeap c w" using assms(1) by (simp_all add: safe_def)
  have d: "callPromise c \<noteq> loadPromise c" "callPromise c \<noteq> aggregate c"
    "loadPromise c \<noteq> aggregate c"
    using ih by (simp_all add: inHeap_def)
  have src: "\<exists>s. source c x = Some s \<and> st ?w s \<noteq> Pending \<and> ok = (st ?w s = Fulfilled)"
    if "j = React x ok" "concerns c x" for x ok
    using that inq qu unfolding queued_def obs_pop by blast
  show ?thesis
  proof (cases j)
    case (ThenJob s t)
    have 1: "source c (Adopt t) = Some s" if "concerns c (Adopt t)"
      using that inq qu d unfolding queued_def ThenJob by auto
    have 2: "s \<noteq> callPromise c"
      using inq qu d unfolding queued_def ThenJob by auto
    show ?thesis unfolding ThenJob runJob.simps by (rule safe_subscribe[OF s1 1 2])
  next
    case (React x ok)
    show ?thesis
    proof (cases x)
      case (Adopt t)
      have "justified c ?w t ok"
        using src[OF React[unfolded Adopt]] d
        by (auto simp: justified_def ownPromises_def split: if_splits)
      then show ?thesis unfolding React Adopt runJob.simps by (rule safe_settle[OF s1])
    next
      case (Resume e t)
      note s = src[OF React[unfolded Resume]]
      show ?thesis
      proof (cases ok)
        case False
        then have False: "ok = False" by simp
        have "justified c ?w t False"
          using s d False
          by (auto simp: justified_def ownPromises_def split: if_splits)
        then have "safe c (settle t False ?w)" by (rule safe_settle[OF s1])
        then show ?thesis by (simp only: React Resume False runJob.simps)
      next
        case True
        then have True: "ok = True" by simp
        have 1: "st ?w (loadPromise c) = Fulfilled" if "e = callElem c"
          using s that True by (auto split: if_splits)
        have 2: "safe c (requestAnimationFrame e ?w)"
          by (rule safe_requestAnimationFrame[OF s1 1])
        have "justified c ?w t True"
          using s d True
          by (auto simp: justified_def ownPromises_def split: if_splits)
        then have "justified c (requestAnimationFrame e ?w) t True"
          by (simp add: justified_def obs_requestAnimationFrame)
        then have "safe c (settle t True (requestAnimationFrame e ?w))" by (rule safe_settle[OF 2])
        then show ?thesis by (simp only: React Resume True runJob.simps)
      qed
    next
      case (AllMember a i)
      note s = src[OF React[unfolded AllMember]]
      show ?thesis
      proof (cases ok)
        case False
        then have okF: "ok = False" by simp
        have "justified c ?w a False"
        proof (cases "a \<in> ownPromises c")
          case False
          then show ?thesis by (rule justified_other)
        next
          case True
          with s obtain q where q: "source c (AllMember a i) = Some q"
            "st ?w q \<noteq> Pending" "ok = (st ?w q = Fulfilled)"
            by auto
          from q(2,3) okF have "st ?w q = Rejected" by (cases "st ?w q") simp_all
          with q(1) have a: "a = aggregate c" "i < length (waits c)"
            "st ?w (waits c ! i) = Rejected"
            by (auto split: if_splits)
          then have "\<exists>m\<in>set (waits c). st ?w m = Rejected"
            using nth_mem[of i "waits c"] by blast
          then show ?thesis using a(1) d by (simp add: justified_def)
        qed
        then have "safe c (settle a False ?w)" by (rule safe_settle[OF s1])
        then show ?thesis by (simp only: React AllMember okF runJob.simps)
      next
        case True
        then have okT: "ok = True" by simp
        let ?w2 = "markDone a i ?w"
        have 2: "safe c ?w2"
        proof (cases "a = aggregate c")
          case False
          then show ?thesis by (rule safe_markDone_other[OF s1])
        next
          case a: True
          with s okT have "i < length (waits c)" "st ?w (waits c ! i) = Fulfilled"
            by (auto simp: ownPromises_def split: if_splits)
          then show ?thesis unfolding a by (rule safe_markDone_own[OF s1])
        qed
        have 3: "justified c ?w2 a True" if "waitingOf ?w2 a = []"
        proof (cases "a \<in> ownPromises c")
          case False
          then show ?thesis by (rule justified_other)
        next
          case True
          with s have "a = aggregate c" by (auto split: if_splits)
          then show ?thesis using that d by (simp add: justified_def)
        qed
        have "safe c (if a < length (promises ?w2) \<and> waiting (promises ?w2 ! a) = []
                      then settle a True ?w2 else ?w2)"
          using 2 safe_settle[OF 2 3] by (simp add: waitingOf_def)
        then show ?thesis by (simp only: React AllMember okT runJob.simps Let_def)
      qed
    qed
  qed
qed

lemma safe_runListeners:
  assumes "safe c w" and "set ls \<subseteq> set (listeners w)"
  shows "safe c (fold runListener ls w)"
  using assms
proof (induction ls arbitrary: w)
  case Nil
  then show ?case by simp
next
  case (Cons li ls)
  have "actionTarget (handler li) \<notin> ownPromises c"
    using Cons.prems by (simp add: safe_def hostApart_def)
  then have "safe c (runListener li w) \<and> listeners (runListener li w) = listeners w"
    using Cons.prems(1)
    by (cases "handler li") (simp_all add: runListener_def safe_settle justified_other misc_settle)
  then show ?case using Cons.IH[of "runListener li w"] Cons.prems(2) by simp
qed

lemma safe_host:
  assumes "safe c w" and "resourceEvent ev"
  shows "safe c (host ev w)"
proof (cases ev)
  case (DomEvent e t)
  show ?thesis unfolding DomEvent host.simps by (rule safe_runListeners[OF assms(1)]) auto
next
  case RunMicrotask
  show ?thesis
    using assms(1) safe_runJob[OF assms(1)] by (cases "microtasks w") (simp_all add: RunMicrotask)
next
  case AnimationFrame
  show ?thesis unfolding AnimationFrame by (rule safe_frame[OF assms(1)])
next
  case (FontLoad i ok)
  have "loaded (fonts w ! i) \<notin> ownPromises c" if "i < length (fonts w)"
    using assms(1) that by (simp add: safe_def hostApart_def)
  then show ?thesis
    using assms(1) by (simp add: FontLoad safe_settle justified_other)
next
  case FontsReady
  have "fontsReady w \<notin> ownPromises c" using assms(1) by (simp add: safe_def hostApart_def)
  then show ?thesis by (simp add: FontsReady safe_settle[OF assms(1)] justified_other)
next
  case (Intersect k entries)
  then show ?thesis using assms(2) by simp
qed

lemma safe_run:
  "safe c w \<Longrightarrow> list_all resourceEvent evs \<Longrightarrow> safe c (run evs w)"
  unfolding run_def
  by (induction evs arbitrary: w) (simp_all add: safe_host)

section \<open>Progress of one call of the dispatcher\<close>

text \<open>
  A reaction \<open>x\<close> attached to the promise \<open>s\<close> is on its way: it is still attached to
  the pending \<open>s\<close>, or \<open>s\<close> is settled and the job that delivers \<open>x\<close> with the outcome of
  \<open>s\<close> is in the queue, or \<open>s\<close> is settled and the effect \<open>D\<close> of the job holds.
\<close>

definition progress :: "world \<Rightarrow> nat \<Rightarrow> reaction \<Rightarrow> bool \<Rightarrow> bool" where
  "progress w s x D =
     ((st w s = Pending \<and> attached w s x) \<or>
      (st w s \<noteq> Pending \<and> inQueue w (React x (st w s = Fulfilled))) \<or>
      (st w s \<noteq> Pending \<and> D))"

definition memberDone :: "call \<Rightarrow> world \<Rightarrow> nat \<Rightarrow> bool" where
  "memberDone c w i =
     ((st w (waits c ! i) = Fulfilled \<and> i \<notin> set (waitingOf w (aggregate c))) \<or>
      (st w (waits c ! i) = Rejected \<and> st w (aggregate c) = Rejected))"

definition adoptDone :: "call \<Rightarrow> world \<Rightarrow> bool" where
  "adoptDone c w =
     (st w (aggregate c) \<noteq> Pending \<and> st w (loadPromise c) = st w (aggregate c))"

definition resumeDone :: "call \<Rightarrow> world \<Rightarrow> bool" where
  "resumeDone c w =
     (st w (loadPromise c) \<noteq> Pending \<and>
      st w (callPromise c) = st w (loadPromise c) \<and>
      (st w (loadPromise c) = Fulfilled \<longrightarrow>
         requested w (callElem c) \<or> running w (callElem c)))"

definition live :: "call \<Rightarrow> world \<Rightarrow> bool" where
  "live c w =
     ((\<forall>i<length (waits c).
         progress w (waits c ! i) (AllMember (aggregate c) i) (memberDone c w i)) \<and>
      (waitingOf w (aggregate c) = [] \<longrightarrow> st w (aggregate c) \<noteq> Pending) \<and>
      (inQueue w (ThenJob (aggregate c) (loadPromise c)) \<or>
       progress w (aggregate c) (Adopt (loadPromise c)) (adoptDone c w)) \<and>
      progress w (loadPromise c) (Resume (callElem c) (callPromise c)) (resumeDone c w))"

lemma progress_weaken:
  "progress w s x D \<Longrightarrow> (st w s \<noteq> Pending \<Longrightarrow> D \<Longrightarrow> D') \<Longrightarrow> progress w s x D'"
  by (auto simp: progress_def)

lemma progress_settle:
  assumes "progress w s x D"
  shows "progress (settle p ok w) s x D"
proof (cases "p < length (promises w) \<and> st w p = Pending")
  case False
  then show ?thesis using assms by (simp add: settle_noop)
next
  case True
  then have p: "p < length (promises w)" "st w p = Pending" by simp_all
  show ?thesis
  proof (cases "s = p")
    case True
    then have "attached w p x" using assms p by (simp add: progress_def)
    then show ?thesis
      unfolding progress_def st_settle[OF p] inQueue_settle[OF p] True by auto
  next
    case False
    then show ?thesis
      using assms unfolding progress_def st_settle[OF p] inQueue_settle[OF p]
        attached_settle[OF p] by auto
  qed
qed

lemma progress_subscribe: "progress w s x D \<Longrightarrow> progress (subscribe p y w) s x D"
  unfolding progress_def obs_subscribe by blast

lemma progress_markDone: "progress w s x D \<Longrightarrow> progress (markDone a i w) s x D"
  unfolding progress_def obs_markDone by blast

lemma progress_requestAnimationFrame:
  "progress w s x D \<Longrightarrow> progress (requestAnimationFrame e w) s x D"
  unfolding progress_def obs_requestAnimationFrame by blast

lemma progress_pop:
  assumes "progress w s x D" and "microtasks w = j # js"
    and "j \<noteq> React x (st w s = Fulfilled)"
  shows "progress (w\<lparr>microtasks := js\<rparr>) s x D"
proof -
  have "inQueue w (React x (st w s = Fulfilled)) \<Longrightarrow> React x (st w s = Fulfilled) \<in> set js"
    using assms(2,3) by (auto simp: inQueue_def)
  then show ?thesis using assms(1) unfolding progress_def obs_pop by blast
qed

lemma progress_runJob: "progress w s x D \<Longrightarrow> progress (runJob j w) s x D"
proof (induction j w rule: runJob.induct)
  case (1 agg i w)
  then show ?case
    by (simp add: Let_def progress_markDone progress_settle)
next
  case (4 e r w)
  then show ?case
    by (simp add: progress_requestAnimationFrame progress_settle)
qed (simp_all add: progress_settle progress_subscribe)

lemma progress_runListeners:
  "progress w s x D \<Longrightarrow> progress (fold runListener ls w) s x D"
proof (induction ls arbitrary: w)
  case Nil
  then show ?case by simp
next
  case (Cons li ls)
  have "progress (runListener li w) s x D"
    using Cons.prems by (cases "handler li") (simp_all add: runListener_def progress_settle)
  then show ?case using Cons.IH by simp
qed

lemma progress_frame: "progress w s x D \<Longrightarrow> progress (host AnimationFrame w) s x D"
proof -
  have o: "st (w\<lparr>frames := []\<rparr>) = st w" "attached (w\<lparr>frames := []\<rparr>) = attached w"
    "inQueue (w\<lparr>frames := []\<rparr>) = inQueue w"
    by (simp_all add: fun_eq_iff st_def attached_def inQueue_def)
  show "progress w s x D \<Longrightarrow> progress (host AnimationFrame w) s x D"
    unfolding host.simps progress_def obs_runFrames o by blast
qed

text \<open>A host event other than the run of the job that delivers \<open>x\<close> keeps \<open>x\<close> on its way.\<close>

lemma progress_host:
  assumes "progress w s x D" and "resourceEvent ev"
    and "\<And>js. ev = RunMicrotask \<Longrightarrow> microtasks w \<noteq> React x (st w s = Fulfilled) # js"
  shows "progress (host ev w) s x D"
proof (cases ev)
  case (DomEvent e t)
  show ?thesis unfolding DomEvent host.simps by (rule progress_runListeners[OF assms(1)])
next
  case RunMicrotask
  show ?thesis
  proof (cases "microtasks w")
    case Nil
    then show ?thesis using assms(1) by (simp add: RunMicrotask)
  next
    case (Cons j js)
    have "j \<noteq> React x (st w s = Fulfilled)" using assms(3)[OF RunMicrotask, of js] Cons by auto
    then have "progress (w\<lparr>microtasks := js\<rparr>) s x D"
      by (rule progress_pop[OF assms(1) Cons])
    then show ?thesis by (simp add: RunMicrotask Cons progress_runJob)
  qed
next
  case AnimationFrame
  show ?thesis unfolding AnimationFrame by (rule progress_frame[OF assms(1)])
next
  case (FontLoad i ok)
  show ?thesis using assms(1) by (simp add: FontLoad progress_settle)
next
  case FontsReady
  show ?thesis using assms(1) by (simp add: FontsReady progress_settle)
next
  case (Intersect k entries)
  then show ?thesis using assms(2) by simp
qed


text \<open>What no step of the host undoes.\<close>

definition advances :: "world \<Rightarrow> world \<Rightarrow> bool" where
  "advances w w' =
     (length (promises w') = length (promises w) \<and>
      (\<forall>p. st w p \<noteq> Pending \<longrightarrow> st w' p = st w p) \<and>
      (\<forall>p. set (waitingOf w' p) \<subseteq> set (waitingOf w p)) \<and>
      (\<forall>p. waitingOf w' p = [] \<longrightarrow> waitingOf w p \<noteq> [] \<longrightarrow> p < length (promises w) \<longrightarrow>
           st w' p \<noteq> Pending) \<and>
      (\<forall>e. requested w e \<or> running w e \<longrightarrow> requested w' e \<or> running w' e))"

lemma advances_refl: "advances w w"
  by (simp add: advances_def)

lemma advances_trans:
  assumes "advances w w'" and "advances w' w''"
  shows "advances w w''"
proof -
  have 1: "length (promises w'') = length (promises w)"
    using assms by (simp add: advances_def)
  have 2: "st w'' p = st w p" if "st w p \<noteq> Pending" for p
    using assms that by (simp add: advances_def)
  have 3: "set (waitingOf w'' p) \<subseteq> set (waitingOf w p)" for p
    using assms unfolding advances_def by blast
  have 4: "st w'' p \<noteq> Pending"
    if "waitingOf w'' p = []" "waitingOf w p \<noteq> []" "p < length (promises w)" for p
  proof (cases "waitingOf w' p = []")
    case True
    then have "st w' p \<noteq> Pending" using assms(1) that unfolding advances_def by blast
    then show ?thesis using assms(2) unfolding advances_def by simp
  next
    case False
    then show ?thesis using assms that unfolding advances_def by simp
  qed
  have 5: "requested w'' e \<or> running w'' e" if "requested w e \<or> running w e" for e
    using assms that unfolding advances_def by blast
  from 1 2 3 4 5 show ?thesis unfolding advances_def by blast
qed

lemma advances_settle: "advances w (settle p ok w)"
proof (cases "p < length (promises w) \<and> st w p = Pending")
  case False
  then show ?thesis by (simp add: settle_noop advances_refl)
next
  case True
  then have p: "p < length (promises w)" "st w p = Pending" by simp_all
  show ?thesis
    unfolding advances_def st_settle[OF p] waitingOf_settle misc_settle using p by auto
qed

lemma advances_subscribe: "advances w (subscribe p x w)"
  unfolding advances_def obs_subscribe by simp

lemma advances_requestAnimationFrame: "advances w (requestAnimationFrame e w)"
  unfolding advances_def obs_requestAnimationFrame by simp

lemma advances_allMember:
  "advances w (runJob (React (AllMember agg i) True) w)"
proof -
  let ?w2 = "markDone agg i w"
  let ?w3 = "if agg < length (promises ?w2) \<and> waiting (promises ?w2 ! agg) = []
             then settle agg True ?w2 else ?w2"
  have l: "length (promises ?w3) = length (promises w)"
    by (simp add: obs_markDone misc_settle)
  have a: "advances ?w2 ?w3" by (simp add: advances_settle advances_refl)
  have 2: "st ?w3 p = st w p" if "st w p \<noteq> Pending" for p
    using a that unfolding advances_def by (simp add: obs_markDone)
  have 3: "set (waitingOf ?w3 p) \<subseteq> set (waitingOf w p)" for p
  proof -
    have "set (waitingOf ?w3 p) \<subseteq> set (waitingOf ?w2 p)" using a unfolding advances_def by blast
    then show ?thesis by (auto simp: obs_markDone split: if_splits)
  qed
  have 4: "st ?w3 p \<noteq> Pending"
    if "waitingOf ?w3 p = []" "waitingOf w p \<noteq> []" "p < length (promises w)" for p
  proof -
    have w3: "waitingOf ?w3 p = waitingOf ?w2 p" by (simp add: waitingOf_settle)
    then have e: "waitingOf ?w2 p = []" using that(1) by simp
    then have "p = agg" using that(2) by (auto simp: obs_markDone split: if_splits)
    then have "?w3 = settle agg True ?w2"
      using e that(3) by (simp add: waitingOf_def obs_markDone)
    moreover have "st (settle agg True ?w2) agg \<noteq> Pending"
      using that(3) \<open>p = agg\<close>
      by (cases "st ?w2 agg = Pending") (simp_all add: st_settle settle_noop obs_markDone)
    ultimately show ?thesis using \<open>p = agg\<close> by simp
  qed
  have 5: "requested ?w3 e \<or> running ?w3 e" if "requested w e \<or> running w e" for e
    using that by (simp add: obs_markDone misc_settle)
  have "advances w ?w3"
    unfolding advances_def using l 2 3 4 5 by blast
  then show ?thesis by (simp only: runJob.simps Let_def)
qed

lemma advances_runJob: "advances w (runJob j w)"
proof (induction j w rule: runJob.induct)
  case (1 agg i w)
  show ?case by (rule advances_allMember)
next
  case (4 e r w)
  show ?case
    using advances_trans[OF advances_requestAnimationFrame advances_settle] by simp
qed (simp_all add: advances_settle advances_subscribe)

lemma advances_pop: "advances w (w\<lparr>microtasks := js\<rparr>)"
  unfolding advances_def obs_pop by simp

lemma advances_runListeners: "advances w (fold runListener ls w)"
proof (induction ls arbitrary: w)
  case Nil
  show ?case by (simp add: advances_refl)
next
  case (Cons li ls)
  have "advances w (runListener li w)"
    by (cases "handler li") (simp_all add: runListener_def advances_settle)
  then show ?case using Cons.IH[of "runListener li w"] by (auto intro: advances_trans)
qed

lemma advances_frame: "advances w (host AnimationFrame w)"
proof -
  have o: "st (w\<lparr>frames := []\<rparr>) = st w" "waitingOf (w\<lparr>frames := []\<rparr>) = waitingOf w"
    "running (w\<lparr>frames := []\<rparr>) = running w"
    by (simp_all add: fun_eq_iff st_def waitingOf_def running_def)
  show ?thesis
    unfolding advances_def host.simps obs_runFrames o by (auto simp: requested_def)
qed

lemma advances_host:
  assumes "resourceEvent ev"
  shows "advances w (host ev w)"
proof (cases ev)
  case (DomEvent e t)
  show ?thesis unfolding DomEvent host.simps by (rule advances_runListeners)
next
  case RunMicrotask
  show ?thesis
  proof (cases "microtasks w")
    case Nil
    then show ?thesis by (simp add: RunMicrotask advances_refl)
  next
    case (Cons j js)
    show ?thesis
      using advances_trans[OF advances_pop advances_runJob]
      by (simp add: RunMicrotask Cons)
  qed
next
  case AnimationFrame
  show ?thesis unfolding AnimationFrame by (rule advances_frame)
next
  case (FontLoad i ok)
  show ?thesis by (simp add: FontLoad advances_settle advances_refl)
next
  case FontsReady
  show ?thesis by (simp add: FontsReady advances_settle)
next
  case (Intersect k entries)
  then show ?thesis using assms by simp
qed

text \<open>A job stays in the queue until it is the first one and the host runs it.\<close>

lemma inQueue_settle_mono: "inQueue w j \<Longrightarrow> inQueue (settle p ok w) j"
  by (cases "p < length (promises w) \<and> st w p = Pending")
     (auto simp: inQueue_settle settle_noop)

lemma inQueue_runJob: "inQueue w j \<Longrightarrow> inQueue (runJob k w) j"
proof (induction k w rule: runJob.induct)
  case (1 agg i w)
  then show ?case by (simp add: Let_def inQueue_settle_mono obs_markDone)
next
  case (4 e r w)
  then show ?case by (simp add: inQueue_settle_mono obs_requestAnimationFrame)
qed (simp_all add: inQueue_settle_mono inQueue_subscribe)

lemma inQueue_runListeners: "inQueue w j \<Longrightarrow> inQueue (fold runListener ls w) j"
proof (induction ls arbitrary: w)
  case Nil
  then show ?case by simp
next
  case (Cons li ls)
  have "inQueue (runListener li w) j"
    using Cons.prems by (cases "handler li") (simp_all add: runListener_def inQueue_settle_mono)
  then show ?case using Cons.IH by simp
qed

lemma inQueue_host:
  assumes "inQueue w j" and "resourceEvent ev"
    and "\<And>js. ev = RunMicrotask \<Longrightarrow> microtasks w \<noteq> j # js"
  shows "inQueue (host ev w) j"
proof (cases ev)
  case (DomEvent e t)
  show ?thesis unfolding DomEvent host.simps by (rule inQueue_runListeners[OF assms(1)])
next
  case RunMicrotask
  show ?thesis
  proof (cases "microtasks w")
    case Nil
    then show ?thesis using assms(1) by (simp add: RunMicrotask)
  next
    case (Cons k js)
    have "k \<noteq> j" using assms(3)[OF RunMicrotask, of js] Cons by auto
    then have "inQueue (w\<lparr>microtasks := js\<rparr>) j"
      using assms(1) Cons by (auto simp: inQueue_def)
    then show ?thesis by (simp add: RunMicrotask Cons inQueue_runJob)
  qed
next
  case AnimationFrame
  have "inQueue (w\<lparr>frames := []\<rparr>) j" using assms(1) by (simp add: inQueue_def)
  then show ?thesis by (simp add: AnimationFrame obs_runFrames)
next
  case (FontLoad i ok)
  show ?thesis using assms(1) by (simp add: FontLoad inQueue_settle_mono)
next
  case FontsReady
  show ?thesis using assms(1) by (simp add: FontsReady inQueue_settle_mono)
next
  case (Intersect k entries)
  then show ?thesis using assms(2) by simp
qed

section \<open>Progress is kept by the host\<close>

lemma queued_head:
  assumes "safe c w" and "microtasks w = React x ok # js" and "source c x = Some s"
    and "concerns c x"
  shows "st w s \<noteq> Pending \<and> ok = (st w s = Fulfilled)"
proof -
  have "inQueue w (React x ok)" using assms(2) by (simp add: inQueue_def)
  then show ?thesis using assms(1,3,4) unfolding safe_def queued_def by fastforce
qed

lemma own_member_job:
  assumes sf: "safe c w" and q: "microtasks w = React (AllMember (aggregate c) i) ok # js"
    and i: "i < length (waits c)"
  shows "st w (waits c ! i) \<noteq> Pending" "ok = (st w (waits c ! i) = Fulfilled)"
    "memberDone c (runJob (React (AllMember (aggregate c) i) ok) (w\<lparr>microtasks := js\<rparr>)) i"
proof -
  let ?a = "aggregate c" and ?m = "waits c ! i"
  let ?w = "w\<lparr>microtasks := js\<rparr>"
  have h: "st w ?m \<noteq> Pending \<and> ok = (st w ?m = Fulfilled)"
    by (rule queued_head[OF sf q]) (simp_all add: i ownPromises_def)
  then show "st w ?m \<noteq> Pending" "ok = (st w ?m = Fulfilled)" by simp_all
  have a: "?a < length (promises w)" using sf by (simp add: safe_def inHeap_def)
  have co: "counted c w" using sf by (simp add: safe_def)
  show "memberDone c (runJob (React (AllMember ?a i) ok) ?w) i"
  proof (cases ok)
    case True
    then have ok: "ok = True" by simp
    let ?r = "runJob (React (AllMember ?a i) True) ?w"
    have "advances ?w ?r" by (rule advances_runJob)
    moreover have "st ?w ?m = Fulfilled" using h ok by (simp add: obs_pop)
    ultimately have 1: "st ?r ?m = Fulfilled" unfolding advances_def by simp
    have "waitingOf ?r ?a = removeAll i (waitingOf w ?a)"
      using a by (simp add: Let_def waitingOf_settle obs_markDone obs_pop)
    then have 2: "i \<notin> set (waitingOf ?r ?a)" by simp
    from 1 2 show ?thesis unfolding ok memberDone_def by blast
  next
    case False
    then have ok: "ok = False" by simp
    let ?r = "settle ?a False ?w"
    have m: "st w ?m = Rejected" using h ok by (cases "st w ?m") simp_all
    have "st w ?a \<noteq> Fulfilled"
    proof
      assume "st w ?a = Fulfilled"
      then have "waitingOf w ?a = []" using co by (simp add: counted_def)
      then have "st w ?m = Fulfilled" using co i by (simp add: counted_def)
      then show False using m by simp
    qed
    then have 1: "st ?r ?a = Rejected"
      using a by (cases "st w ?a") (simp_all add: st_settle settle_noop obs_pop)
    have "advances ?w ?r" by (rule advances_settle)
    then have 2: "st ?r ?m = Rejected" using m unfolding advances_def by (simp add: obs_pop)
    from 1 2 show ?thesis unfolding ok memberDone_def by simp
  qed
qed

lemma own_adopt_job:
  assumes sf: "safe c w" and q: "microtasks w = React (Adopt (loadPromise c)) ok # js"
  shows "st w (aggregate c) \<noteq> Pending"
    "adoptDone c (runJob (React (Adopt (loadPromise c)) ok) (w\<lparr>microtasks := js\<rparr>))"
proof -
  let ?a = "aggregate c" and ?l = "loadPromise c"
  let ?w = "w\<lparr>microtasks := js\<rparr>"
  let ?r = "settle ?l ok ?w"
  have h: "st w ?a \<noteq> Pending \<and> ok = (st w ?a = Fulfilled)"
    by (rule queued_head[OF sf q]) (simp_all add: ownPromises_def)
  then show "st w ?a \<noteq> Pending" by simp
  have l: "?l < length (promises w)" and ch: "chained c w"
    using sf by (simp_all add: safe_def inHeap_def)
  have "advances ?w ?r" by (rule advances_settle)
  then have 1: "st ?r ?a = st w ?a" using h unfolding advances_def by (simp add: obs_pop)
  have 2: "st ?r ?l = st w ?a"
  proof (cases "st w ?l = Pending")
    case True
    then show ?thesis
      using l h by (cases "st w ?a") (simp_all add: st_settle obs_pop)
  next
    case False
    then show ?thesis using ch by (simp add: settle_noop obs_pop chained_def)
  qed
  from 1 2 h show "adoptDone c (runJob (React (Adopt ?l) ok) ?w)"
    by (simp add: adoptDone_def)
qed

lemma own_resume_job:
  assumes sf: "safe c w"
    and q: "microtasks w = React (Resume (callElem c) (callPromise c)) ok # js"
  shows "st w (loadPromise c) \<noteq> Pending"
    "resumeDone c (runJob (React (Resume (callElem c) (callPromise c)) ok) (w\<lparr>microtasks := js\<rparr>))"
proof -
  let ?l = "loadPromise c" and ?r = "callPromise c" and ?e = "callElem c"
  let ?w = "w\<lparr>microtasks := js\<rparr>"
  have h: "st w ?l \<noteq> Pending \<and> ok = (st w ?l = Fulfilled)"
    by (rule queued_head[OF sf q]) (simp_all add: ownPromises_def)
  then show "st w ?l \<noteq> Pending" by simp
  have r: "?r < length (promises w)" and ch: "chained c w"
    using sf by (simp_all add: safe_def inHeap_def)
  show "resumeDone c (runJob (React (Resume ?e ?r) ok) ?w)"
  proof (cases ok)
    case True
    then have ok: "ok = True" and lf: "st w ?l = Fulfilled" using h by simp_all
    let ?w2 = "requestAnimationFrame ?e ?w"
    let ?x = "settle ?r True ?w2"
    have "advances ?w2 ?x" by (rule advances_settle)
    then have 1: "st ?x ?l = Fulfilled"
      using lf unfolding advances_def by (simp add: obs_pop obs_requestAnimationFrame)
    have 2: "st ?x ?r = Fulfilled"
    proof (cases "st w ?r = Pending")
      case True
      then show ?thesis using r by (simp add: st_settle obs_pop obs_requestAnimationFrame)
    next
      case False
      then show ?thesis
        using ch lf by (simp add: settle_noop obs_pop obs_requestAnimationFrame chained_def)
    qed
    have 3: "requested ?x ?e" by (simp add: misc_settle obs_requestAnimationFrame)
    from 1 2 3 show ?thesis unfolding ok by (simp add: resumeDone_def)
  next
    case False
    then have ok: "ok = False" by simp
    then have lf: "st w ?l = Rejected" using h by (cases "st w ?l") simp_all
    let ?x = "settle ?r False ?w"
    have "advances ?w ?x" by (rule advances_settle)
    then have 1: "st ?x ?l = Rejected" using lf unfolding advances_def by (simp add: obs_pop)
    have 2: "st ?x ?r = Rejected"
    proof (cases "st w ?r = Pending")
      case True
      then show ?thesis using r by (simp add: st_settle obs_pop)
    next
      case False
      then show ?thesis using ch lf by (simp add: settle_noop obs_pop chained_def)
    qed
    from 1 2 show ?thesis unfolding ok by (simp add: resumeDone_def)
  qed
qed

lemma own_then_job:
  assumes sf: "safe c w"
  shows "progress (runJob (ThenJob (aggregate c) (loadPromise c)) (w\<lparr>microtasks := js\<rparr>))
           (aggregate c) (Adopt (loadPromise c)) D"
proof -
  have a: "aggregate c < length (promises w)" using sf by (simp add: safe_def inHeap_def)
  show ?thesis
    using a by (auto simp: progress_def obs_subscribe obs_pop)
qed


lemma live_host:
  assumes sf: "safe c w" and lv: "live c w" and re: "resourceEvent ev"
  shows "live c (host ev w)"
proof -
  let ?w = "host ev w"
  let ?a = "aggregate c" and ?l = "loadPromise c" and ?r = "callPromise c" and ?e = "callElem c"
  have adv: "advances w ?w" by (rule advances_host[OF re])
  have keep: "st ?w p = st w p" if "st w p \<noteq> Pending" for p
    using adv that unfolding advances_def by simp
  have a: "?a < length (promises w)" using sf by (simp add: safe_def inHeap_def)
  have hd: "?w = runJob j (w\<lparr>microtasks := js\<rparr>)"
    if "ev = RunMicrotask" "microtasks w = j # js" for j js
    using that by simp
  have 1: "progress ?w (waits c ! i) (AllMember ?a i) (memberDone c ?w i)"
    if i: "i < length (waits c)" for i
  proof (cases "\<exists>js. ev = RunMicrotask \<and>
      microtasks w = React (AllMember ?a i) (st w (waits c ! i) = Fulfilled) # js")
    case True
    then obtain js where ev: "ev = RunMicrotask"
      and q: "microtasks w = React (AllMember ?a i) (st w (waits c ! i) = Fulfilled) # js"
      by blast
    note o = own_member_job[OF sf q i]
    have "st ?w (waits c ! i) \<noteq> Pending" using keep[OF o(1)] o(1) by simp
    then show ?thesis using o(3) unfolding hd[OF ev q] progress_def by blast
  next
    case False
    have p: "progress w (waits c ! i) (AllMember ?a i) (memberDone c w i)"
      using lv i by (simp add: live_def)
    have "progress ?w (waits c ! i) (AllMember ?a i) (memberDone c w i)"
      by (rule progress_host[OF p re]) (use False in blast)
    moreover have "memberDone c ?w i" if "memberDone c w i"
    proof -
      have "set (waitingOf ?w ?a) \<subseteq> set (waitingOf w ?a)"
        using adv unfolding advances_def by blast
      then show ?thesis
        using that keep[of "waits c ! i"] keep[of ?a] unfolding memberDone_def by auto
    qed
    ultimately show ?thesis by (rule progress_weaken)
  qed
  have 2: "st ?w ?a \<noteq> Pending" if "waitingOf ?w ?a = []"
  proof (cases "waitingOf w ?a = []")
    case True
    then have "st w ?a \<noteq> Pending" using lv by (simp add: live_def)
    then show ?thesis using keep[of ?a] by simp
  next
    case False
    then show ?thesis using adv a that unfolding advances_def by blast
  qed
  have 3: "inQueue ?w (ThenJob ?a ?l) \<or> progress ?w ?a (Adopt ?l) (adoptDone c ?w)"
  proof (cases "inQueue w (ThenJob ?a ?l)")
    case True
    show ?thesis
    proof (cases "\<exists>js. ev = RunMicrotask \<and> microtasks w = ThenJob ?a ?l # js")
      case True
      then obtain js where ev: "ev = RunMicrotask" and q: "microtasks w = ThenJob ?a ?l # js"
        by blast
      show ?thesis unfolding hd[OF ev q] using own_then_job[OF sf] by blast
    next
      case False
      have "inQueue ?w (ThenJob ?a ?l)"
        by (rule inQueue_host[OF True re]) (use False in blast)
      then show ?thesis by blast
    qed
  next
    case False
    then have p: "progress w ?a (Adopt ?l) (adoptDone c w)" using lv by (simp add: live_def)
    have "progress ?w ?a (Adopt ?l) (adoptDone c ?w)"
    proof (cases "\<exists>js. ev = RunMicrotask \<and>
        microtasks w = React (Adopt ?l) (st w ?a = Fulfilled) # js")
      case True
      then obtain js where ev: "ev = RunMicrotask"
        and q: "microtasks w = React (Adopt ?l) (st w ?a = Fulfilled) # js"
        by blast
      note o = own_adopt_job[OF sf q]
      have "st ?w ?a \<noteq> Pending" using keep[OF o(1)] o(1) by simp
      then show ?thesis using o(2) unfolding hd[OF ev q] progress_def by blast
    next
      case False
      have "progress ?w ?a (Adopt ?l) (adoptDone c w)"
        by (rule progress_host[OF p re]) (use False in blast)
      moreover have "adoptDone c ?w" if "adoptDone c w"
        using that keep[of ?a] keep[of ?l] by (simp add: adoptDone_def)
      ultimately show ?thesis by (rule progress_weaken)
    qed
    then show ?thesis by blast
  qed
  have 4: "progress ?w ?l (Resume ?e ?r) (resumeDone c ?w)"
  proof (cases "\<exists>js. ev = RunMicrotask \<and>
      microtasks w = React (Resume ?e ?r) (st w ?l = Fulfilled) # js")
    case True
    then obtain js where ev: "ev = RunMicrotask"
      and q: "microtasks w = React (Resume ?e ?r) (st w ?l = Fulfilled) # js"
      by blast
    note o = own_resume_job[OF sf q]
    have "st ?w ?l \<noteq> Pending" using keep[OF o(1)] o(1) by simp
    then show ?thesis using o(2) unfolding hd[OF ev q] progress_def by blast
  next
    case False
    have p: "progress w ?l (Resume ?e ?r) (resumeDone c w)" using lv by (simp add: live_def)
    have "progress ?w ?l (Resume ?e ?r) (resumeDone c w)"
      by (rule progress_host[OF p re]) (use False in blast)
    moreover have "resumeDone c ?w" if "resumeDone c w"
    proof -
      have "requested ?w ?e \<or> running ?w ?e" if "requested w ?e \<or> running w ?e"
        using adv that unfolding advances_def by blast
      then show ?thesis
        using \<open>resumeDone c w\<close> keep[of ?l] keep[of ?r] by (auto simp: resumeDone_def)
    qed
    ultimately show ?thesis by (rule progress_weaken)
  qed
  from 1 2 3 4 show ?thesis unfolding live_def by blast
qed

lemma tracked_run:
  "safe c w \<Longrightarrow> live c w \<Longrightarrow> list_all resourceEvent evs \<Longrightarrow>
   safe c (run evs w) \<and> live c (run evs w)"
  unfolding run_def
  by (induction evs arbitrary: w) (simp_all add: safe_host live_host)

section \<open>The state after \<^verbatim>\<open>Promise.all\<close>\<close>

definition subscribeAll :: "nat \<Rightarrow> nat \<Rightarrow> nat list \<Rightarrow> world \<Rightarrow> world" where
  "subscribeAll agg k ms w =
     fold (\<lambda>(i, m). subscribe m (AllMember agg i)) (zip [k..<k + length ms] ms) w"

lemma subscribeAll_Nil [simp]: "subscribeAll agg k [] w = w"
  by (simp add: subscribeAll_def)

lemma subscribeAll_Cons:
  "subscribeAll agg k (m # ms) w = subscribeAll agg (Suc k) ms (subscribe m (AllMember agg k) w)"
proof -
  have "[k..<k + length (m # ms)] = k # [Suc k..<Suc k + length ms]"
    by (simp add: upt_conv_Cons del: upt_Suc)
  then show ?thesis by (simp add: subscribeAll_def del: upt_Suc)
qed

lemma subscribeAll_same:
  "st (subscribeAll agg k ms w) q = st w q"
  "waitingOf (subscribeAll agg k ms w) q = waitingOf w q"
  "length (promises (subscribeAll agg k ms w)) = length (promises w)"
  "requested (subscribeAll agg k ms w) e = requested w e"
  "running (subscribeAll agg k ms w) e = running w e"
  "listeners (subscribeAll agg k ms w) = listeners w"
  "fonts (subscribeAll agg k ms w) = fonts w"
  "fontsReady (subscribeAll agg k ms w) = fontsReady w"
  by (induction ms arbitrary: k w) (simp_all add: subscribeAll_Cons obs_subscribe)

lemma attached_subscribeAll:
  "attached (subscribeAll agg k ms w) q x =
     (attached w q x \<or>
      (\<exists>i<length ms. x = AllMember agg (k + i) \<and> q = ms ! i \<and> st w q = Pending \<and>
         q < length (promises w)))"
proof (induction ms arbitrary: k w)
  case Nil
  show ?case by simp
next
  case (Cons m ms)
  have "(\<exists>i<length (m # ms). P i) = (P 0 \<or> (\<exists>i<length ms. P (Suc i)))" for P
    by (auto simp: less_Suc_eq_0_disj)
  then show ?case
    unfolding subscribeAll_Cons Cons.IH
    by (auto simp: obs_subscribe)
qed

lemma inQueue_subscribeAll:
  "inQueue (subscribeAll agg k ms w) j =
     (inQueue w j \<or>
      (\<exists>i<length ms. j = React (AllMember agg (k + i)) (st w (ms ! i) = Fulfilled) \<and>
         st w (ms ! i) \<noteq> Pending \<and> ms ! i < length (promises w)))"
proof (induction ms arbitrary: k w)
  case Nil
  show ?case by simp
next
  case (Cons m ms)
  have "(\<exists>i<length (m # ms). P i) = (P 0 \<or> (\<exists>i<length ms. P (Suc i)))" for P
    by (auto simp: less_Suc_eq_0_disj)
  then show ?case
    unfolding subscribeAll_Cons Cons.IH
    by (auto simp: obs_subscribe)
qed

text \<open>The state that \<^verbatim>\<open>Promise.all\<close> leaves.\<close>

lemma promiseAll_obs:
  assumes "promiseAll ms w = (w', agg)" and "\<forall>m\<in>set ms. m < length (promises w)"
  shows "agg = length (promises w)"
    and "length (promises w') = Suc (length (promises w))"
    and "\<And>q. q < length (promises w) \<Longrightarrow> st w' q = st w q"
    and "st w' agg = (if ms = [] then Fulfilled else Pending)"
    and "waitingOf w' agg = [0..<length ms]"
    and "\<And>q x. attached w' q x =
       (attached w q x \<or>
        (\<exists>i<length ms. x = AllMember agg i \<and> q = ms ! i \<and> st w q = Pending))"
    and "\<And>j. inQueue w' j =
       (inQueue w j \<or>
        (\<exists>i<length ms. j = React (AllMember agg i) (st w (ms ! i) = Fulfilled) \<and>
           st w (ms ! i) \<noteq> Pending))"
    and "\<And>e. requested w' e = requested w e"
    and "\<And>e. running w' e = running w e"
    and "listeners w' = listeners w" and "fonts w' = fonts w" and "fontsReady w' = fontsReady w"
    and "\<And>q. q < length (promises w) \<Longrightarrow> waitingOf w' q = waitingOf w q"
proof -
  let ?n = "length (promises w)"
  let ?w1 = "w\<lparr>promises := promises w @
                 [\<lparr>pstate = Pending, reactions = [], waiting = [0..<length ms]\<rparr>]\<rparr>"
  let ?w2 = "subscribeAll ?n 0 ms ?w1"
  show agg: "agg = ?n" using assms(1) by (auto simp: promiseAll_def Let_def)
  have w': "w' = (if ms = [] then settle ?n True ?w2 else ?w2)"
    using assms(1) by (auto simp: promiseAll_def Let_def subscribeAll_def)
  have w1: "st ?w1 q = (if q < ?n then st w q else st ?w1 q)"
    "attached ?w1 q x = attached w q x" "inQueue ?w1 j = inQueue w j"
    "waitingOf ?w1 ?n = [0..<length ms]" "requested ?w1 e = requested w e"
    "running ?w1 e = running w e" "st ?w1 ?n = Pending" for q x j e
    by (auto simp: st_def attached_def inQueue_def waitingOf_def requested_def running_def
        nth_append less_Suc_eq)
  have e: "w' = ?w2" if "ms \<noteq> []" using that w' by simp
  show "length (promises w') = Suc ?n"
    unfolding w' by (simp add: subscribeAll_same misc_settle)
  have s1: "st ?w1 q = st w q" if "q < ?n" for q
    using that by (simp add: st_def nth_append)
  have sn: "?n < length (promises ?w1)" "st ?w1 ?n = Pending"
    by (simp_all add: st_def)
  have stw': "st w' q = (if q = ?n \<and> ms = [] then Fulfilled else st ?w1 q)" for q
    unfolding w' using st_settle[OF sn, of True q]
    by (cases "ms = []") (simp_all add: subscribeAll_same)
  show "st w' q = st w q" if "q < ?n" for q
    using that by (simp add: stw' s1)
  show "st w' agg = (if ms = [] then Fulfilled else Pending)"
    by (simp add: stw' agg sn)
  have "waitingOf w' agg = waitingOf ?w1 ?n"
    unfolding w' agg by (simp add: subscribeAll_same waitingOf_settle)
  then show "waitingOf w' agg = [0..<length ms]"
    by (simp only: w1(4))
  have m: "ms ! i < ?n" if "i < length ms" for i using assms(2) that by simp
  show "attached w' q x =
       (attached w q x \<or>
        (\<exists>i<length ms. x = AllMember agg i \<and> q = ms ! i \<and> st w q = Pending))" for q x
  proof (cases "ms = []")
    case True
    have a1: "attached w' q x = (attached ?w1 q x \<and> q \<noteq> ?n)"
      using attached_settle[OF sn, of True q x] True by (simp add: w')
    have a3: "attached w q x \<Longrightarrow> q \<noteq> ?n" by (simp add: attached_def)
    show ?thesis unfolding a1 w1(2) using a3 True by auto
  next
    case False
    have "st ?w1 (ms ! i) = st w (ms ! i)" if "i < length ms" for i
      using m[OF that] by (simp add: st_def nth_append)
    then show ?thesis
      unfolding e[OF False] attached_subscribeAll w1(2) agg
      using m m[THEN less_SucI] by auto
  qed
  show "inQueue w' j =
       (inQueue w j \<or>
        (\<exists>i<length ms. j = React (AllMember agg i) (st w (ms ! i) = Fulfilled) \<and>
           st w (ms ! i) \<noteq> Pending))" for j
  proof (cases "ms = []")
    case True
    have a1: "inQueue w' j = (inQueue ?w1 j \<or> (\<exists>x. j = React x True \<and> attached ?w1 ?n x))"
      using inQueue_settle[OF sn, of True j] True by (simp add: w')
    have a3: "\<not> attached w ?n x" for x by (simp add: attached_def)
    show ?thesis unfolding a1 w1(2,3) using a3 True by auto
  next
    case False
    have "st ?w1 (ms ! i) = st w (ms ! i)" if "i < length ms" for i
      using m[OF that] by (simp add: st_def nth_append)
    then show ?thesis
      unfolding e[OF False] inQueue_subscribeAll w1(3) agg
      using m m[THEN less_SucI] by auto
  qed
  have "requested w' e = requested ?w1 e" "running w' e = running ?w1 e" for e
    unfolding w' by (simp_all add: subscribeAll_same misc_settle)
  then show "requested w' e = requested w e" "running w' e = running w e" for e
    by (simp_all add: requested_def running_def)
  show "listeners w' = listeners w" "fonts w' = fonts w" "fontsReady w' = fontsReady w"
    unfolding w' by (simp_all add: subscribeAll_same misc_settle)
  have "waitingOf w' q = waitingOf ?w1 q" for q
    unfolding w' by (simp add: subscribeAll_same waitingOf_settle)
  then show "waitingOf w' q = waitingOf w q" if "q < ?n" for q
    using that by (simp add: waitingOf_def nth_append)
qed

section \<open>The state after the aggregator's loops\<close>

text \<open>
  The loops only extend the state: they append promises that have no reaction, and
  listeners that settle appended promises.
\<close>

definition extends :: "world \<Rightarrow> world \<Rightarrow> bool" where
  "extends w w' =
     ((\<exists>ps. promises w' = promises w @ ps \<and> (\<forall>p\<in>set ps. reactions p = [])) \<and>
      microtasks w' = microtasks w \<and> frames w' = frames w \<and>
      (\<exists>ls. listeners w' = listeners w @ ls \<and>
         (\<forall>li\<in>set ls. length (promises w) \<le> actionTarget (handler li) \<and>
            actionTarget (handler li) < length (promises w'))) \<and>
      sameHost w w')"

lemma extends_refl: "extends w w"
  by (simp add: extends_def)

lemma extends_length: "extends w w' \<Longrightarrow> length (promises w) \<le> length (promises w')"
  by (auto simp: extends_def)

lemma extends_trans:
  assumes "extends w w'" and "extends w' w''"
  shows "extends w w''"
proof -
  from assms(1) obtain ps ls where 1: "promises w' = promises w @ ps"
    "\<forall>p\<in>set ps. reactions p = []" "listeners w' = listeners w @ ls"
    "\<forall>li\<in>set ls. length (promises w) \<le> actionTarget (handler li) \<and>
            actionTarget (handler li) < length (promises w')"
    unfolding extends_def by blast
  from assms(2) obtain ps' ls' where 2: "promises w'' = promises w' @ ps'"
    "\<forall>p\<in>set ps'. reactions p = []" "listeners w'' = listeners w' @ ls'"
    "\<forall>li\<in>set ls'. length (promises w') \<le> actionTarget (handler li) \<and>
            actionTarget (handler li) < length (promises w'')"
    unfolding extends_def by blast
  have a: "promises w'' = promises w @ (ps @ ps') \<and> (\<forall>p\<in>set (ps @ ps'). reactions p = [])"
    using 1 2 by auto
  have b: "listeners w'' = listeners w @ (ls @ ls') \<and>
      (\<forall>li\<in>set (ls @ ls'). length (promises w) \<le> actionTarget (handler li) \<and>
            actionTarget (handler li) < length (promises w''))"
    using 1 2 by fastforce
  have c: "microtasks w'' = microtasks w" "frames w'' = frames w" "sameHost w w''"
    using assms by (auto simp: extends_def intro: sameHost_trans)
  from a b c show ?thesis unfolding extends_def by blast
qed

lemma extends_newPromise:
  "extends w (fst (newPromise w))"
  by (simp add: extends_def newPromise_def sameHost_def)

lemma extends_loadImage:
  "extends w (fst (loadImage x w)) \<and> snd (loadImage x w) = length (promises w) \<and>
   length (promises (fst (loadImage x w))) = Suc (length (promises w))"
  by (simp add: extends_def loadImage_def newPromise_def settle_def sameHost_def Let_def)

lemma extends_loadVideo:
  "extends w (fst (loadVideo x w)) \<and> snd (loadVideo x w) = length (promises w) \<and>
   length (promises (fst (loadVideo x w))) = Suc (length (promises w))"
  by (simp add: extends_def loadVideo_def newPromise_def settle_def sameHost_def Let_def)

lemma extends_loadEach:
  assumes "\<And>x w. extends w (fst (f x w)) \<and> snd (f x w) = length (promises w) \<and>
             length (promises (fst (f x w))) = Suc (length (promises w))"
  shows "extends w (fst (loadEach f xs w)) \<and>
         (\<forall>p\<in>set (snd (loadEach f xs w)).
            length (promises w) \<le> p \<and> p < length (promises (fst (loadEach f xs w))))"
proof (induction xs arbitrary: w)
  case Nil
  show ?case by (simp add: extends_refl)
next
  case (Cons x xs)
  let ?w1 = "fst (f x w)"
  note a = assms[of w x]
  note ih = Cons.IH[of ?w1]
  have "extends w (fst (loadEach f xs ?w1))"
    using a ih by (blast intro: extends_trans)
  moreover have "length (promises w) \<le> p \<and> p < length (promises (fst (loadEach f xs ?w1)))"
    if "p = snd (f x w) \<or> p \<in> set (snd (loadEach f xs ?w1))" for p
    using that a ih extends_length[of ?w1 "fst (loadEach f xs ?w1)"] by auto
  ultimately show ?case by (simp add: split_beta Let_def)
qed

lemma loadFonts_range:
  "loadFonts s (loadedFontsMap w) w \<in> loaded ` set (fonts w) \<union> {fontsReady w}"
proof (cases "loadedFontsMap w (fontFamily (props s) @ ''_'' @ fontStyle (props s) @ ''_'' @ fontWeight (props s))")
  case None
  then show ?thesis by (simp add: loadFonts_def)
next
  case (Some f)
  then have "f \<in> set (fonts w)"
    by (auto simp: loadedFontsMap_lookup dest: find_SomeD)
  then show ?thesis using Some by (simp add: loadFonts_def)
qed

lemma extends_collectWaits:
  "extends w (fst (collectWaits n w)) \<and>
   (\<forall>p\<in>set (snd (collectWaits n w)).
      (length (promises w) \<le> p \<and> p < length (promises (fst (collectWaits n w)))) \<or>
      p \<in> loaded ` set (fonts w) \<union> {fontsReady w})"
proof -
  let ?i = "loadEach loadImage (getElementsByTagName n ''img'') w"
  let ?v = "loadEach loadVideo (getElementsByTagName n ''video'') (fst ?i)"
  note i = extends_loadEach[of loadImage, OF extends_loadImage, of w "getElementsByTagName n ''img''"]
  note v = extends_loadEach[of loadVideo, OF extends_loadVideo, of "fst ?i" "getElementsByTagName n ''video''"]
  have e: "extends w (fst ?v)" using i v by (blast intro: extends_trans)
  have f: "fonts (fst ?v) = fonts w" "fontsReady (fst ?v) = fontsReady w"
    using e by (simp_all add: extends_def sameHost_def)
  then have m: "loadedFontsMap (fst ?v) = loadedFontsMap w" by (simp add: loadedFontsMap_def)
  have w: "fst (collectWaits n w) = fst ?v"
    and ps: "snd (collectWaits n w) = snd ?i @ snd ?v @
      map (\<lambda>s. loadFonts s (loadedFontsMap (fst ?v)) (fst ?v)) (getElementsByTagName n ''span'')"
    by (simp_all add: collectWaits_def split_beta Let_def)
  have 1: "length (promises w) \<le> p \<and> p < length (promises (fst ?v))" if "p \<in> set (snd ?i)" for p
    using that i extends_length[OF v[THEN conjunct1]] by auto
  have 2: "length (promises w) \<le> p \<and> p < length (promises (fst ?v))" if "p \<in> set (snd ?v)" for p
    using that v extends_length[OF i[THEN conjunct1]] by auto
  have 3: "loadFonts s (loadedFontsMap (fst ?v)) (fst ?v) \<in> loaded ` set (fonts w) \<union> {fontsReady w}" for s
    using loadFonts_range[of s "fst ?v"] f by simp
  show ?thesis unfolding w ps using e 1 2 3 by auto
qed

section \<open>The state after a call of the dispatcher that waits\<close>

text \<open>
  An element is idle when no frame is requested for it, it is not running, and no
  reaction or job of the state resumes a call of the dispatcher for it. \<open>joinSet\<close> is
  the list \<^verbatim>\<open>loadingPromises\<close> that the call of the dispatcher on the state \<open>w\<close> hands to
  \<^verbatim>\<open>Promise.all\<close>, and \<open>callOf\<close> names the promises of that call.
\<close>

fun resumes :: "nat \<Rightarrow> reaction \<Rightarrow> bool" where
  "resumes e (Resume e' t) = (e' = e)"
| "resumes e x = False"

fun jobResumes :: "nat \<Rightarrow> job \<Rightarrow> bool" where
  "jobResumes e (React x ok) = resumes e x"
| "jobResumes e (ThenJob s t) = False"

definition idle :: "nat \<Rightarrow> world \<Rightarrow> bool" where
  "idle e w =
     (e \<notin> set (frames w) \<and> animationPlayState w e \<noteq> Some ''running'' \<and>
      list_all (\<lambda>p. list_all (\<lambda>x. \<not> resumes e x) (reactions p)) (promises w) \<and>
      list_all (\<lambda>j. \<not> jobResumes e j) (microtasks w))"

definition joinSet :: "node \<Rightarrow> world \<Rightarrow> nat list" where
  "joinSet element w = snd (collectWaits element (fst (newPromise (fst (newPromise w)))))"

definition callOf :: "node \<Rightarrow> world \<Rightarrow> call" where
  "callOf element w =
     \<lparr>callElem = nodeId element,
      callPromise = length (promises w),
      loadPromise = Suc (length (promises w)),
      aggregate = length (promises (fst (collectWaits element (fst (newPromise (fst (newPromise w))))))),
      waits = joinSet element w\<rparr>"

lemma extends_obs:
  assumes "extends w w'"
  shows "q < length (promises w) \<Longrightarrow> st w' q = st w q"
    and "attached w' q x = attached w q x"
    and "inQueue w' j = inQueue w j"
    and "requested w' e = requested w e"
    and "running w' e = running w e"
proof -
  from assms obtain ps where ps: "promises w' = promises w @ ps" "\<forall>p\<in>set ps. reactions p = []"
    unfolding extends_def by blast
  show "q < length (promises w) \<Longrightarrow> st w' q = st w q"
    by (simp add: st_def ps nth_append)
  have "x \<notin> set (reactions (ps ! k))" if "k < length ps" for k
    using ps(2) that by simp
  then show "attached w' q x = attached w q x"
    by (auto simp: attached_def ps(1) nth_append)
  show "inQueue w' j = inQueue w j" "requested w' e = requested w e" "running w' e = running w e"
    using assms by (simp_all add: inQueue_def requested_def running_def extends_def sameHost_def)
qed

lemma wellFormed_obs:
  assumes "wellFormed w"
  shows "attached w q x \<Longrightarrow> reactionTarget x < length (promises w)"
    and "inQueue w (React x ok) \<Longrightarrow> reactionTarget x < length (promises w)"
    and "inQueue w (ThenJob s t) \<Longrightarrow> s < length (promises w) \<and> t < length (promises w)"
    and "li \<in> set (listeners w) \<Longrightarrow> actionTarget (handler li) < length (promises w)"
    and "f \<in> set (fonts w) \<Longrightarrow> loaded f < length (promises w)"
    and "fontsReady w < length (promises w)"
  using assms
  by (auto simp: wellFormed_def Let_def list_all_iff attached_def inQueue_def)

lemma idle_obs:
  assumes "idle e w"
  shows "attached w q x \<Longrightarrow> \<not> resumes e x"
    and "inQueue w (React x ok) \<Longrightarrow> \<not> resumes e x"
    and "\<not> requested w e" and "\<not> running w e"
  using assms
  by (auto simp: idle_def list_all_iff attached_def inQueue_def requested_def running_def)


text \<open>The state that the dispatcher leaves when it waits for the resources of its element.\<close>

lemma snd_newPromise: "snd (newPromise w) = length (promises w)"
  by (simp add: newPromise_def)

lemma length_newPromise: "length (promises (fst (newPromise w))) = Suc (length (promises w))"
  by (simp add: newPromise_def)

lemma dispatch_obs:
  assumes wf: "wellFormed w0" and an: "''animated'' \<in> set (classList a)" and deps: "hasDependencies (Element e a ks)"
  defines "el \<equiv> Element e a ks"
  defines "c \<equiv> callOf (Element e a ks) w0"
  defines "wC \<equiv> fst (collectWaits (Element e a ks) (fst (newPromise (fst (newPromise w0)))))"
  defines "wF \<equiv> fst (startAnimationForElement (Element e a ks) w0)"
  shows "snd (startAnimationForElement (Element e a ks) w0) = callPromise c"
    and "extends w0 wC" and "Suc (Suc (length (promises w0))) \<le> length (promises wC)"
    and "st wC (callPromise c) = Pending" and "st wC (loadPromise c) = Pending"
    and "\<forall>m\<in>set (waits c).
           (Suc (Suc (length (promises w0))) \<le> m \<and> m < length (promises wC)) \<or>
           m \<in> loaded ` set (fonts w0) \<union> {fontsReady w0}"
    and "\<forall>li\<in>set (listeners wC). li \<in> set (listeners w0) \<or>
           (Suc (Suc (length (promises w0))) \<le> actionTarget (handler li) \<and>
            actionTarget (handler li) < length (promises wC))"
    and "length (promises wF) = Suc (length (promises wC))"
    and "\<And>q. q < length (promises wC) \<Longrightarrow> st wF q = st wC q"
    and "st wF (aggregate c) = (if waits c = [] then Fulfilled else Pending)"
    and "waitingOf wF (aggregate c) = [0..<length (waits c)]"
    and "\<And>q x. attached wF q x =
       (attached w0 q x \<or>
        (\<exists>i<length (waits c). x = AllMember (aggregate c) i \<and> q = waits c ! i \<and>
           st wC q = Pending) \<or>
        (q = loadPromise c \<and> x = Resume e (callPromise c)))"
    and "\<And>j. inQueue wF j =
       (inQueue w0 j \<or>
        (\<exists>i<length (waits c). j = React (AllMember (aggregate c) i) (st wC (waits c ! i) = Fulfilled) \<and>
           st wC (waits c ! i) \<noteq> Pending) \<or>
        j = ThenJob (aggregate c) (loadPromise c))"
    and "\<And>x. requested wF x = requested w0 x" and "\<And>x. running wF x = running w0 x"
    and "listeners wF = listeners wC" and "fonts wF = fonts w0" and "fontsReady wF = fontsReady w0"
    and "\<And>q. q < length (promises w0) \<Longrightarrow> waitingOf wF q = waitingOf w0 q"
    and "\<And>q. q < length (promises w0) \<Longrightarrow> st wF q = st w0 q"
proof -
  let ?n0 = "length (promises w0)"
  let ?wA = "fst (newPromise w0)"
  let ?wB = "fst (newPromise ?wA)"
  let ?ms = "snd (collectWaits el ?wB)"
  let ?wD = "fst (promiseAll ?ms wC)"
  let ?agg = "length (promises wC)"
  let ?wE = "?wD\<lparr>microtasks := microtasks ?wD @ [ThenJob ?agg (Suc ?n0)]\<rparr>"
  have c: "callElem c = e" "callPromise c = ?n0" "loadPromise c = Suc ?n0" "aggregate c = ?agg"
    "waits c = ?ms"
    by (simp_all add: c_def callOf_def wC_def joinSet_def el_def)
  have lB: "length (promises ?wB) = Suc (Suc ?n0)" by (simp add: newPromise_def)
  have eB: "extends w0 ?wB"
    using extends_trans[OF extends_newPromise extends_newPromise] .
  note cw = extends_collectWaits[of ?wB el]
  have eBC: "extends ?wB wC" using cw by (simp add: wC_def el_def)
  show eC: "extends w0 wC" by (rule extends_trans[OF eB eBC])
  show lC: "Suc (Suc ?n0) \<le> ?agg" using extends_length[OF eBC] lB by simp
  have stB: "st ?wB ?n0 = Pending" "st ?wB (Suc ?n0) = Pending"
    by (simp_all add: st_def newPromise_def nth_append)
  show stC: "st wC (callPromise c) = Pending" "st wC (loadPromise c) = Pending"
    using extends_obs(1)[OF eBC, of ?n0] extends_obs(1)[OF eBC, of "Suc ?n0"] stB lB
    by (simp_all add: c)
  have fB: "fonts ?wB = fonts w0" "fontsReady ?wB = fontsReady w0" "listeners ?wB = listeners w0"
    by (simp_all add: newPromise_def)
  show ms: "\<forall>m\<in>set (waits c).
           (Suc (Suc ?n0) \<le> m \<and> m < length (promises wC)) \<or>
           m \<in> loaded ` set (fonts w0) \<union> {fontsReady w0}"
    using cw unfolding c lB fB wC_def el_def by blast
  show "\<forall>li\<in>set (listeners wC). li \<in> set (listeners w0) \<or>
           (Suc (Suc ?n0) \<le> actionTarget (handler li) \<and>
            actionTarget (handler li) < length (promises wC))"
    using eBC unfolding extends_def lB fB by auto
  have msC: "\<forall>m\<in>set ?ms. m < length (promises wC)"
  proof
    fix m assume "m \<in> set ?ms"
    then have "(Suc (Suc ?n0) \<le> m \<and> m < length (promises wC)) \<or>
           m \<in> loaded ` set (fonts w0) \<union> {fontsReady w0}"
      using ms by (simp add: c)
    moreover have "m < ?n0" if "m \<in> loaded ` set (fonts w0) \<union> {fontsReady w0}"
      using that wellFormed_obs(5,6)[OF wf] by auto
    ultimately show "m < length (promises wC)" using lC by auto
  qed
  note pa = promiseAll_obs[OF surjective_pairing msC]
  have sE: "st ?wE q = st ?wD q" "attached ?wE q x = attached ?wD q x"
    "inQueue ?wE j = (inQueue ?wD j \<or> j = ThenJob ?agg (Suc ?n0))"
    "waitingOf ?wE q = waitingOf ?wD q" "requested ?wE y = requested ?wD y"
    "running ?wE y = running ?wD y" "length (promises ?wE) = length (promises ?wD)"
    "listeners ?wE = listeners ?wD" "fonts ?wE = fonts ?wD" "fontsReady ?wE = fontsReady ?wD"
    for q x j y
    by (auto simp: st_def attached_def inQueue_def waitingOf_def requested_def running_def)
  have wF: "wF = subscribe (Suc ?n0) (Resume e ?n0) ?wE"
    and res: "snd (startAnimationForElement (Element e a ks) w0) = ?n0"
    using an deps pa(1)
    by (simp_all add: wF_def wC_def el_def loadElementResources_def split_beta Let_def
        snd_newPromise length_newPromise)
  show "snd (startAnimationForElement (Element e a ks) w0) = callPromise c"
    using res by (simp add: c)
  have lE: "Suc ?n0 < length (promises ?wD)" using pa(2) lC by simp
  have pE: "st ?wD (Suc ?n0) = Pending"
    using pa(3)[of "Suc ?n0"] stC(2) lC by (simp add: c)
  show "length (promises wF) = Suc (length (promises wC))"
    unfolding wF by (simp add: obs_subscribe sE pa(2))
  show "st wF q = st wC q" if "q < length (promises wC)" for q
    unfolding wF using pa(3)[OF that] by (simp add: obs_subscribe sE)
  show "st wF (aggregate c) = (if waits c = [] then Fulfilled else Pending)"
    unfolding wF c using pa(4) by (simp add: obs_subscribe sE pa(1))
  show "waitingOf wF (aggregate c) = [0..<length (waits c)]"
    unfolding wF c using pa(5) by (simp add: obs_subscribe sE pa(1))
  show "attached wF q x =
       (attached w0 q x \<or>
        (\<exists>i<length (waits c). x = AllMember (aggregate c) i \<and> q = waits c ! i \<and>
           st wC q = Pending) \<or>
        (q = loadPromise c \<and> x = Resume e (callPromise c)))" for q x
    unfolding wF c attached_subscribe sE pa(6) pa(1) extends_obs(2)[OF eC]
    using lE pE by auto
  show "inQueue wF j =
       (inQueue w0 j \<or>
        (\<exists>i<length (waits c). j = React (AllMember (aggregate c) i) (st wC (waits c ! i) = Fulfilled) \<and>
           st wC (waits c ! i) \<noteq> Pending) \<or>
        j = ThenJob (aggregate c) (loadPromise c))" for j
    unfolding wF c inQueue_subscribe sE pa(7) pa(1) extends_obs(3)[OF eC]
    using pE by auto
  show "requested wF x = requested w0 x" "running wF x = running w0 x" for x
    unfolding wF by (simp_all add: obs_subscribe sE pa(8,9) extends_obs(4,5)[OF eC])
  show "listeners wF = listeners wC"
    unfolding wF by (simp add: obs_subscribe sE pa(10))
  show "fonts wF = fonts w0" "fontsReady wF = fontsReady w0"
    unfolding wF using eC
    by (simp_all add: obs_subscribe sE pa(11,12) extends_def sameHost_def)
  show "waitingOf wF q = waitingOf w0 q" if "q < ?n0" for q
  proof -
    from eC obtain ps where "promises wC = promises w0 @ ps" unfolding extends_def by blast
    then have "waitingOf wC q = waitingOf w0 q" using that by (simp add: waitingOf_def nth_append)
    moreover have "q < length (promises wC)" using that lC by simp
    ultimately show ?thesis unfolding wF using pa(13)[of q] by (simp add: obs_subscribe sE)
  qed
  show "st wF q = st w0 q" if "q < ?n0" for q
  proof -
    have "q < length (promises wC)" using that lC by simp
    then have "st wF q = st wC q" unfolding wF using pa(3)[of q] by (simp add: obs_subscribe sE)
    then show ?thesis using extends_obs(1)[OF eC that] by simp
  qed
qed


lemma established:
  assumes wf: "wellFormed w0" and idle: "idle e w0"
    and an: "''animated'' \<in> set (classList a)" and deps: "hasDependencies (Element e a ks)"
  shows "safe (callOf (Element e a ks) w0) (fst (startAnimationForElement (Element e a ks) w0))"
    and "live (callOf (Element e a ks) w0) (fst (startAnimationForElement (Element e a ks) w0))"
proof -
  let ?c = "callOf (Element e a ks) w0"
  let ?wC = "fst (collectWaits (Element e a ks) (fst (newPromise (fst (newPromise w0)))))"
  let ?wF = "fst (startAnimationForElement (Element e a ks) w0)"
  let ?n0 = "length (promises w0)"
  let ?r = "callPromise ?c" and ?l = "loadPromise ?c" and ?a = "aggregate ?c" and ?ms = "waits ?c"
  note d = dispatch_obs[OF wf an deps]
  note W = wellFormed_obs[OF wf]
  note I = idle_obs[OF idle]
  have c: "callElem ?c = e" "?r = ?n0" "?l = Suc ?n0" "?a = length (promises ?wC)"
    by (simp_all add: callOf_def)
  have own: "ownPromises ?c = {?n0, Suc ?n0, length (promises ?wC)}"
    by (simp add: ownPromises_def c)
  have lC: "Suc (Suc ?n0) \<le> length (promises ?wC)" by (rule d(3))
  have fonts: "m < ?n0" if "m \<in> loaded ` set (fonts w0) \<union> {fontsReady w0}" for m
    using that W(5,6) by auto
  have mem: "m < length (promises ?wC) \<and> m \<noteq> ?n0 \<and> m \<noteq> Suc ?n0" if "m \<in> set ?ms" for m
    using d(6) that fonts[of m] lC by fastforce
  have memi: "?ms ! i < length (promises ?wC) \<and> ?ms ! i \<noteq> ?n0 \<and> ?ms ! i \<noteq> Suc ?n0"
    if "i < length ?ms" for i
    using mem[of "?ms ! i"] that by simp
  have old: "\<not> concerns ?c x" if "reactionTarget x < ?n0" "\<not> resumes e x" for x
    using that lC by (cases x) (simp_all add: own c)
  have stm: "st ?wF (?ms ! i) = st ?wC (?ms ! i)" if "i < length ?ms" for i
    using d(9)[of "?ms ! i"] memi[OF that] by simp
  have 1: "inHeap ?c ?wF"
  proof -
    have "m < Suc (length (promises ?wC))" "m \<notin> ownPromises ?c" if "m \<in> set ?ms" for m
      using mem[OF that] unfolding own by auto
    moreover have "?r < Suc (length (promises ?wC))" "?l < Suc (length (promises ?wC))"
      "?a < Suc (length (promises ?wC))" "?r \<noteq> ?l" "?r \<noteq> ?a" "?l \<noteq> ?a"
      using lC by (simp_all add: c)
    ultimately show ?thesis unfolding inHeap_def d(8) by blast
  qed
  have 2: "placed ?c ?wF"
  proof -
    have "source ?c x = Some p" if "attached ?wF p x" "concerns ?c x" for p x
      using that old[of x] W(1)[of p x] I(1)[of p x] unfolding d(12) by (auto simp: c)
    moreover have "\<not> attached ?wF ?r x" for x
    proof
      assume "attached ?wF ?r x"
      then consider "attached w0 ?r x" | i where "i < length ?ms" "?r = ?ms ! i" | "?r = ?l"
        unfolding d(12) by blast
      then show False
      proof cases
        case 1
        then show False by (simp add: attached_def c)
      next
        case 2
        then show False using memi[OF 2(1)] by (simp add: c)
      next
        case 3
        then show False by (simp add: c)
      qed
    qed
    ultimately show ?thesis unfolding placed_def by blast
  qed
  have 3: "queued ?c ?wF"
  proof -
    have "\<exists>s. source ?c x = Some s \<and> st ?wF s \<noteq> Pending \<and> ok = (st ?wF s = Fulfilled)"
      if "inQueue ?wF (React x ok)" "concerns ?c x" for x ok
      using that old[of x] W(2)[of x ok] I(2)[of x ok] stm unfolding d(13) by (auto simp: c)
    moreover have "s = ?a \<and> t = ?l"
      if "inQueue ?wF (ThenJob s t)" "t \<in> ownPromises ?c \<or> s = ?r" for s t
      using that W(3)[of s t] lC unfolding d(13) own by (auto simp: c)
    ultimately show ?thesis unfolding queued_def by blast
  qed
  have 4: "hostApart ?c ?wF"
  proof -
    have "actionTarget (handler li) \<notin> ownPromises ?c" if "li \<in> set (listeners ?wC)" for li
      using d(7) that W(4)[of li] lC unfolding own by fastforce
    moreover have "loaded f \<notin> ownPromises ?c" if "f \<in> set (fonts w0)" for f
      using W(5)[OF that] lC unfolding own by auto
    moreover have "fontsReady w0 \<notin> ownPromises ?c"
      using W(6) lC unfolding own by auto
    ultimately show ?thesis unfolding hostApart_def d(16,17,18) by blast
  qed
  have 5: "counted ?c ?wF"
    unfolding counted_def d(10,11) by auto
  have stF: "st ?wF ?r = Pending" "st ?wF ?l = Pending"
    using d(9)[of ?r] d(9)[of ?l] d(4,5) lC by (simp_all add: c)
  have 6: "chained ?c ?wF"
    unfolding chained_def stF d(14,15) using I(3,4) by (simp add: c)
  show "safe ?c ?wF" using 1 2 3 4 5 6 by (simp add: safe_def)
  have 7: "progress ?wF (?ms ! i) (AllMember ?a i) D" if "i < length ?ms" for i D
    unfolding progress_def stm[OF that] d(12,13) using that by blast
  have 8: "waitingOf ?wF ?a = [] \<longrightarrow> st ?wF ?a \<noteq> Pending"
    unfolding d(10,11) by simp
  have 9: "inQueue ?wF (ThenJob ?a ?l)" unfolding d(13) by blast
  have 10: "progress ?wF ?l (Resume (callElem ?c) ?r) D" for D
    unfolding progress_def stF d(12) by (simp add: c)
  show "live ?c ?wF" using 7 8 9 10 unfolding live_def by blast
qed

section \<open>What the invariants give\<close>

lemma st_all:
  "(\<forall>m\<in>set ms. st w m = s) = (\<forall>i<length ms. st w (ms ! i) = s)"
  by (rule all_set_conv_all_nth)

lemma safe_fulfilled:
  assumes "safe c w" and "st w (loadPromise c) = Fulfilled"
  shows "\<forall>m\<in>set (waits c). st w m = Fulfilled" and "st w (aggregate c) = Fulfilled"
proof -
  have ch: "chained c w" and co: "counted c w" using assms(1) by (simp_all add: safe_def)
  show a: "st w (aggregate c) = Fulfilled" using ch assms(2) by (simp add: chained_def)
  then have "waitingOf w (aggregate c) = []" using co by (simp add: counted_def)
  then show "\<forall>m\<in>set (waits c). st w m = Fulfilled"
    using co unfolding st_all counted_def by simp
qed


lemma safe_call_fulfilled:
  assumes "safe c w" and "st w (callPromise c) = Fulfilled"
  shows "\<forall>m\<in>set (waits c). st w m = Fulfilled"
proof -
  have "st w (loadPromise c) = Fulfilled"
    using assms by (simp add: safe_def chained_def)
  then show ?thesis by (rule safe_fulfilled(1)[OF assms(1)])
qed

lemma quiescent_links:
  assumes "live c w" and "microtasks w = []"
  shows "i < length (waits c) \<Longrightarrow> st w (waits c ! i) \<noteq> Pending \<Longrightarrow> memberDone c w i"
    and "st w (aggregate c) \<noteq> Pending \<Longrightarrow> adoptDone c w"
    and "st w (loadPromise c) \<noteq> Pending \<Longrightarrow> resumeDone c w"
  using assms by (auto simp: live_def progress_def inQueue_def)

lemma quiescent_rejected:
  assumes "safe c w" and "live c w" and "microtasks w = []"
    and "m \<in> set (waits c)" and "st w m = Rejected"
  shows "st w (aggregate c) = Rejected" "st w (loadPromise c) = Rejected"
    "st w (callPromise c) = Rejected"
proof -
  from assms(4) obtain i where i: "i < length (waits c)" "waits c ! i = m"
    by (auto simp: in_set_conv_nth)
  note q = quiescent_links[OF assms(2,3)]
  have "memberDone c w i" using q(1)[OF i(1)] i(2) assms(5) by simp
  then show a: "st w (aggregate c) = Rejected"
    using i(2) assms(5) by (simp add: memberDone_def)
  then have "adoptDone c w" using q(2) by simp
  then show l: "st w (loadPromise c) = Rejected" using a by (simp add: adoptDone_def)
  then have "resumeDone c w" using q(3) by simp
  then show "st w (callPromise c) = Rejected" using l by (simp add: resumeDone_def)
qed

lemma quiescent_fulfilled:
  assumes "safe c w" and "live c w" and "microtasks w = []"
    and "\<forall>m\<in>set (waits c). st w m = Fulfilled"
  shows "st w (aggregate c) = Fulfilled" "st w (loadPromise c) = Fulfilled"
    "st w (callPromise c) = Fulfilled"
    "requested w (callElem c) \<or> running w (callElem c)"
proof -
  note q = quiescent_links[OF assms(2,3)]
  have co: "counted c w" using assms(1) by (simp add: safe_def)
  have f: "st w (waits c ! i) = Fulfilled" if "i < length (waits c)" for i
    using assms(4) that by simp
  have n: "i \<notin> set (waitingOf w (aggregate c))" if "i < length (waits c)" for i
    using q(1)[OF that] f[OF that] by (simp add: memberDone_def)
  have s: "set (waitingOf w (aggregate c)) \<subseteq> {..<length (waits c)}"
    using co by (simp add: counted_def)
  have "x \<notin> set (waitingOf w (aggregate c))" for x
  proof
    assume x: "x \<in> set (waitingOf w (aggregate c))"
    then have "x < length (waits c)" using s by auto
    then show False using n x by blast
  qed
  then have "waitingOf w (aggregate c) = []" by (cases "waitingOf w (aggregate c)") auto
  then have "st w (aggregate c) \<noteq> Pending" using assms(2) by (simp add: live_def)
  moreover have "st w (aggregate c) \<noteq> Rejected"
    using co assms(4) by (auto simp: counted_def)
  ultimately show a: "st w (aggregate c) = Fulfilled" by (cases "st w (aggregate c)") simp_all
  then have "adoptDone c w" using q(2) by simp
  then show l: "st w (loadPromise c) = Fulfilled" using a by (simp add: adoptDone_def)
  then have r: "resumeDone c w" using q(3) by simp
  then show "st w (callPromise c) = Fulfilled" using l by (simp add: resumeDone_def)
  show "requested w (callElem c) \<or> running w (callElem c)"
    using r l by (simp add: resumeDone_def)
qed






section \<open>The dispatcher waits for the join set\<close>


lemma tracked:
  assumes "wellFormed w0" and "idle e w0"
    and "''animated'' \<in> set (classList a)" and "hasDependencies (Element e a ks)"
    and "list_all resourceEvent evs"
  shows "safe (callOf (Element e a ks) w0) (run evs (fst (startAnimationForElement (Element e a ks) w0)))"
    and "live (callOf (Element e a ks) w0) (run evs (fst (startAnimationForElement (Element e a ks) w0)))"
  using tracked_run[OF established[OF assms(1-4)] assms(5)] by simp_all

lemma callOf_simps:
  "callElem (callOf (Element e a ks) w) = e"
  "callPromise (callOf (Element e a ks) w) = length (promises w)"
  "loadPromise (callOf (Element e a ks) w) = Suc (length (promises w))"
  "waits (callOf (Element e a ks) w) = joinSet (Element e a ks) w"
  by (simp_all add: callOf_def)



section \<open>The aggregate of the join set\<close>

text \<open>An animated element with two images that are not loaded yet, for the examples.\<close>

definition twoImages :: node where
  "twoImages = Element 1 (plainElem ''div'' [''animated''])
     [Element 2 (plainElem ''img'' []) [], Element 3 (plainElem ''img'' []) []]"

lemma snd_loadElementResources:
  "snd (loadElementResources element w) = length (promises w)"
  by (simp add: loadElementResources_def newPromise_def split_def Let_def)

text \<open>
  C2, as stated, fails. The dispatcher is called on an element with two images, neither
  loaded. The promise of \<^verbatim>\<open>loadElementResources\<close> is the promise 2 and the join set
  holds the waits 3 and 4 of the images. The second image fails while the first is
  still loading: after the queued jobs have run the promise 2 is rejected, and the wait 3
  of the first image is still pending.
\<close>

theorem aggregate_fails_fast:
  "hasDependencies twoImages \<and>
   snd (loadElementResources twoImages (fst (newPromise emptyWorld))) = 2 \<and>
   joinSet twoImages emptyWorld = [3, 4] \<and>
   microtasks (run [RunMicrotask, DomEvent 3 ''error'', RunMicrotask, RunMicrotask, RunMicrotask]
     (fst (startAnimationForElement twoImages emptyWorld))) = [] \<and>
   pstate (promises (run [RunMicrotask, DomEvent 3 ''error'', RunMicrotask, RunMicrotask, RunMicrotask]
     (fst (startAnimationForElement twoImages emptyWorld))) ! 2) = Rejected \<and>
   pstate (promises (run [RunMicrotask, DomEvent 3 ''error'', RunMicrotask, RunMicrotask, RunMicrotask]
     (fst (startAnimationForElement twoImages emptyWorld))) ! 3) = Pending"
proof -
  let ?w = "run [RunMicrotask, DomEvent 3 ''error'', RunMicrotask, RunMicrotask, RunMicrotask]
     (fst (startAnimationForElement twoImages emptyWorld))"
  have 1: "hasDependencies twoImages" by code_simp
  have 2: "snd (loadElementResources twoImages (fst (newPromise emptyWorld))) = 2" by code_simp
  have 3: "joinSet twoImages emptyWorld = [3, 4]" by code_simp
  have 4: "microtasks ?w = []" by code_simp
  have 5: "pstate (promises ?w ! 2) = Rejected" by code_simp
  have 6: "pstate (promises ?w ! 3) = Pending" by code_simp
  from 1 2 3 4 5 6 show ?thesis by blast
qed

text \<open>
  C2, amended. Let the dispatcher be called, in a well-formed state where the element is
  idle, on an animated element with dependencies, and let the host then run any events of
  the resources and the schedulers. The promise of \<^verbatim>\<open>loadElementResources\<close> is fulfilled
  only when every wait of the join set is fulfilled, and rejected only when some wait is
  rejected. Once the microtask queue is empty, it is rejected as soon as some wait is
  rejected, whatever the state of the other waits, and fulfilled when all are fulfilled.
\<close>

theorem aggregate_outcome:
  assumes "wellFormed w0" and "idle e w0"
    and "''animated'' \<in> set (classList a)" and "hasDependencies (Element e a ks)"
    and "list_all resourceEvent evs"
  shows
    "(let p = snd (loadElementResources (Element e a ks) (fst (newPromise w0)));
          ms = joinSet (Element e a ks) w0;
          w = run evs (fst (startAnimationForElement (Element e a ks) w0))
      in (pstate (promises w ! p) = Fulfilled \<longrightarrow>
            (\<forall>m\<in>set ms. pstate (promises w ! m) = Fulfilled)) \<and>
         (pstate (promises w ! p) = Rejected \<longrightarrow>
            (\<exists>m\<in>set ms. pstate (promises w ! m) = Rejected)) \<and>
         (microtasks w = [] \<and> (\<exists>m\<in>set ms. pstate (promises w ! m) = Rejected) \<longrightarrow>
            pstate (promises w ! p) = Rejected) \<and>
         (microtasks w = [] \<and> (\<forall>m\<in>set ms. pstate (promises w ! m) = Fulfilled) \<longrightarrow>
            pstate (promises w ! p) = Fulfilled))"
proof -
  let ?c = "callOf (Element e a ks) w0"
  let ?w = "run evs (fst (startAnimationForElement (Element e a ks) w0))"
  let ?ms = "joinSet (Element e a ks) w0"
  let ?p = "snd (loadElementResources (Element e a ks) (fst (newPromise w0)))"
  note t = tracked[OF assms]
  have p: "?p = loadPromise ?c"
    by (simp add: snd_loadElementResources length_newPromise callOf_simps)
  have 1: "st ?w ?p = Fulfilled \<longrightarrow> (\<forall>m\<in>set ?ms. st ?w m = Fulfilled)"
    using safe_fulfilled(1)[OF t(1)] by (simp add: p callOf_simps)
  have 2: "st ?w ?p = Rejected \<longrightarrow> (\<exists>m\<in>set ?ms. st ?w m = Rejected)"
  proof
    assume r: "st ?w ?p = Rejected"
    have "st ?w (aggregate ?c) = Rejected"
      using t(1) r by (simp add: safe_def chained_def p)
    then show "\<exists>m\<in>set ?ms. st ?w m = Rejected"
      using t(1) by (simp add: safe_def counted_def callOf_simps)
  qed
  have 3: "microtasks ?w = [] \<and> (\<exists>m\<in>set ?ms. st ?w m = Rejected) \<longrightarrow> st ?w ?p = Rejected"
  proof
    assume h: "microtasks ?w = [] \<and> (\<exists>m\<in>set ?ms. st ?w m = Rejected)"
    then obtain m where m: "m \<in> set (waits ?c)" "st ?w m = Rejected"
      by (auto simp: callOf_simps)
    have q: "microtasks ?w = []" using h by simp
    show "st ?w ?p = Rejected"
      unfolding p by (rule quiescent_rejected(2)[OF t q m])
  qed
  have 4: "microtasks ?w = [] \<and> (\<forall>m\<in>set ?ms. st ?w m = Fulfilled) \<longrightarrow> st ?w ?p = Fulfilled"
  proof
    assume h: "microtasks ?w = [] \<and> (\<forall>m\<in>set ?ms. st ?w m = Fulfilled)"
    then have q: "microtasks ?w = []" and f: "\<forall>m\<in>set (waits ?c). st ?w m = Fulfilled"
      by (simp_all add: callOf_simps)
    show "st ?w ?p = Fulfilled"
      unfolding p by (rule quiescent_fulfilled(2)[OF t q f])
  qed
  from 1 2 3 4 show ?thesis unfolding Let_def st_def by (intro conjI)
qed

theorem aggregate_outcome_witness:
  "wellFormed emptyWorld \<and> idle 1 emptyWorld \<and> hasDependencies twoImages \<and>
   pstate (promises (run [RunMicrotask, DomEvent 3 ''error'', RunMicrotask, RunMicrotask, RunMicrotask]
     (fst (startAnimationForElement twoImages emptyWorld))) ! 4) = Rejected \<and>
   pstate (promises (run [RunMicrotask, DomEvent 3 ''error'', RunMicrotask, RunMicrotask, RunMicrotask]
     (fst (startAnimationForElement twoImages emptyWorld))) !
     snd (loadElementResources twoImages (fst (newPromise emptyWorld)))) = Rejected \<and>
   pstate (promises (run [RunMicrotask, DomEvent 2 ''load'', RunMicrotask]
     (fst (startAnimationForElement twoImages emptyWorld))) !
     snd (loadElementResources twoImages (fst (newPromise emptyWorld)))) \<noteq> Fulfilled"
proof -
  let ?w1 = "fst (startAnimationForElement twoImages emptyWorld)"
  let ?evs = "[RunMicrotask, DomEvent 3 ''error'', RunMicrotask, RunMicrotask, RunMicrotask]"
  let ?evs' = "[RunMicrotask, DomEvent 2 ''load'', RunMicrotask]"
  let ?p = "snd (loadElementResources twoImages (fst (newPromise emptyWorld)))"
  have wf: "wellFormed emptyWorld" and idle: "idle 1 emptyWorld"
    by (simp_all add: wellFormed_def idle_def emptyWorld_def)
  have an: "''animated'' \<in> set (classList (plainElem ''div'' [''animated'']))"
    by (simp add: plainElem_def)
  have deps': "hasDependencies twoImages" by code_simp
  have deps: "hasDependencies (Element 1 (plainElem ''div'' [''animated''])
      [Element 2 (plainElem ''img'' []) [], Element 3 (plainElem ''img'' []) []])"
    using deps' by (simp only: twoImages_def)
  have js: "joinSet twoImages emptyWorld = [3, 4]" by code_simp
  have q: "microtasks (run ?evs ?w1) = []" by code_simp
  have r: "pstate (promises (run ?evs ?w1) ! 4) = Rejected" by code_simp
  have n: "pstate (promises (run ?evs' ?w1) ! 4) = Pending" by code_simp
  have e1: "list_all resourceEvent ?evs" and e2: "list_all resourceEvent ?evs'" by simp_all
  note a = aggregate_outcome[OF wf idle an deps e1, folded twoImages_def, unfolded Let_def js]
  note b = aggregate_outcome[OF wf idle an deps e2, folded twoImages_def, unfolded Let_def js]
  have m4: "(4::nat) \<in> set [3, 4]" by simp
  have ex: "\<exists>m\<in>set [3, 4]. pstate (promises (run ?evs ?w1) ! m) = Rejected"
  proof (rule bexI)
    show "pstate (promises (run ?evs ?w1) ! 4) = Rejected" by (rule r)
    show "(4::nat) \<in> set [3, 4]" by simp
  qed
  have 1: "pstate (promises (run ?evs ?w1) ! ?p) = Rejected"
    by (rule a[THEN conjunct2, THEN conjunct2, THEN conjunct1, THEN mp]) (rule conjI[OF q ex])
  have 2: "pstate (promises (run ?evs' ?w1) ! ?p) \<noteq> Fulfilled"
  proof
    assume "pstate (promises (run ?evs' ?w1) ! ?p) = Fulfilled"
    then have "\<forall>m\<in>set [3, 4]. pstate (promises (run ?evs' ?w1) ! m) = Fulfilled"
      by (rule b[THEN conjunct1, THEN mp])
    then have "pstate (promises (run ?evs' ?w1) ! 4) = Fulfilled" using m4 by (rule bspec)
    then show False using n by simp
  qed
  from wf idle deps' r 1 2 show ?thesis by (intro conjI)
qed

section \<open>Text outside a span\<close>

text \<open>
  An animated element whose only content is a text node, for the examples. Its own font
  is the face of \<open>fontWorld\<close>, which has not loaded.
\<close>

definition textBox :: node where
  "textBox = Element 1 (plainElem ''div'' [''animated'']) [TextNode [0x48, 0x69]]"

text \<open>
  With no image, video or span below the element the loops of the aggregator do nothing,
  \<^verbatim>\<open>Promise.all\<close> is called on the empty list, and three microtasks lead from the return
  of the dispatcher to the request of a frame.
\<close>


lemma collectWaits_none:
  assumes "getElementsByTagName element ''img'' = []"
    and "getElementsByTagName element ''video'' = []"
    and "getElementsByTagName element ''span'' = []"
  shows "collectWaits element w = (w, [])"
  by (simp add: collectWaits_def assms)

lemma promiseAll_Nil:
  "promiseAll [] w =
     (w\<lparr>promises := promises w @ [\<lparr>pstate = Fulfilled, reactions = [], waiting = []\<rparr>]\<rparr>,
      length (promises w))"
  by (simp add: promiseAll_def settle_def Let_def)

lemma dispatch_no_waits:
  assumes an: "''animated'' \<in> set (classList a)" and deps: "hasDependencies (Element e a ks)"
    and none: "collectWaits (Element e a ks) (fst (newPromise (fst (newPromise w0)))) =
      (fst (newPromise (fst (newPromise w0))), [])"
  shows "fst (startAnimationForElement (Element e a ks) w0) =
     w0\<lparr>promises := promises w0 @
            [\<lparr>pstate = Pending, reactions = [], waiting = []\<rparr>,
             \<lparr>pstate = Pending, reactions = [Resume e (length (promises w0))], waiting = []\<rparr>,
             \<lparr>pstate = Fulfilled, reactions = [], waiting = []\<rparr>],
          microtasks := microtasks w0 @
            [ThenJob (Suc (Suc (length (promises w0)))) (Suc (length (promises w0)))]\<rparr>"
proof -
  have "loadElementResources (Element e a ks) (fst (newPromise w0)) =
     (fst (promiseAll [] (fst (newPromise (fst (newPromise w0)))))
        \<lparr>microtasks := microtasks w0 @
            [ThenJob (Suc (Suc (length (promises w0)))) (Suc (length (promises w0)))]\<rparr>,
      Suc (length (promises w0)))"
    unfolding loadElementResources_def
    by (simp add: none split_def Let_def promiseAll_Nil snd_newPromise length_newPromise)
       (simp add: newPromise_def)
  then show ?thesis
    using an deps
    by (simp add: Let_def split_def promiseAll_Nil subscribe_def newPromise_def nth_append list_update_append)
qed

lemma three_microtasks:
  assumes "w1 = w0\<lparr>promises := promises w0 @
            [\<lparr>pstate = Pending, reactions = [], waiting = []\<rparr>,
             \<lparr>pstate = Pending, reactions = [Resume e (length (promises w0))], waiting = []\<rparr>,
             \<lparr>pstate = Fulfilled, reactions = [], waiting = []\<rparr>],
          microtasks := microtasks w0 @
            [ThenJob (Suc (Suc (length (promises w0)))) (Suc (length (promises w0)))]\<rparr>"
    and "microtasks w0 = []"
  shows "frames (run [RunMicrotask, RunMicrotask, RunMicrotask] w1) = frames w0 @ [e]"
    and "microtasks (run [RunMicrotask, RunMicrotask, RunMicrotask] w1) = []"
    and "pstate (promises (run [RunMicrotask, RunMicrotask, RunMicrotask] w1) ! length (promises w0)) = Fulfilled"
proof -
  let ?n = "length (promises w0)"
  have a: "host RunMicrotask w1 = w1\<lparr>microtasks := [React (Adopt (Suc ?n)) True]\<rparr>"
    by (simp add: assms subscribe_def nth_append)
  have b: "host RunMicrotask (w1\<lparr>microtasks := [React (Adopt (Suc ?n)) True]\<rparr>) =
      w1\<lparr>promises := promises w0 @
            [\<lparr>pstate = Pending, reactions = [], waiting = []\<rparr>,
             \<lparr>pstate = Fulfilled, reactions = [], waiting = []\<rparr>,
             \<lparr>pstate = Fulfilled, reactions = [], waiting = []\<rparr>],
          microtasks := [React (Resume e ?n) True]\<rparr>"
    by (simp add: assms settle_def nth_append list_update_append)
  have c: "host RunMicrotask (w1\<lparr>promises := promises w0 @
            [\<lparr>pstate = Pending, reactions = [], waiting = []\<rparr>,
             \<lparr>pstate = Fulfilled, reactions = [], waiting = []\<rparr>,
             \<lparr>pstate = Fulfilled, reactions = [], waiting = []\<rparr>],
          microtasks := [React (Resume e ?n) True]\<rparr>) =
      w1\<lparr>promises := promises w0 @
            [\<lparr>pstate = Fulfilled, reactions = [], waiting = []\<rparr>,
             \<lparr>pstate = Fulfilled, reactions = [], waiting = []\<rparr>,
             \<lparr>pstate = Fulfilled, reactions = [], waiting = []\<rparr>],
          microtasks := [], frames := frames w0 @ [e]\<rparr>"
    by (simp add: assms settle_def nth_append list_update_append requestAnimationFrame_def)
  have r: "run [RunMicrotask, RunMicrotask, RunMicrotask] w1 =
      host RunMicrotask (host RunMicrotask (host RunMicrotask w1))"
    by (simp add: run_def)
  show "frames (run [RunMicrotask, RunMicrotask, RunMicrotask] w1) = frames w0 @ [e]"
    unfolding r a b c by simp
  show "microtasks (run [RunMicrotask, RunMicrotask, RunMicrotask] w1) = []"
    unfolding r a b c by simp
  show "pstate (promises (run [RunMicrotask, RunMicrotask, RunMicrotask] w1) ! length (promises w0)) = Fulfilled"
    unfolding r a b c by (simp add: nth_append)
qed


text \<open>
  C9. Let the dispatcher be called, in a well-formed state where the element is idle, on
  an animated element that has text content and no image, video or span descendant. The
  element has dependencies, its join set is empty, the aggregate of \<^verbatim>\<open>Promise.all\<close> is
  fulfilled when the call returns, and the call registers no listener. After any events
  of the resources and the schedulers, once the microtask queue is empty a frame is
  requested for the element or it is running, and the next animation frame leaves it
  running. If the microtask queue was empty at the call, three microtasks request the
  frame and the animation frame after them starts the element. Nothing is assumed of any
  font face or of \<^verbatim>\<open>document.fonts.ready\<close>.
\<close>

theorem text_outside_span_no_font_wait:
  assumes "wellFormed w0" and "idle e w0"
    and "''animated'' \<in> set (classList a)" and "hasTextContent (Element e a ks)"
    and "getElementsByTagName (Element e a ks) ''img'' = []"
    and "getElementsByTagName (Element e a ks) ''video'' = []"
    and "getElementsByTagName (Element e a ks) ''span'' = []"
    and "list_all resourceEvent evs"
  shows
    "(let el = Element e a ks;
          w1 = fst (startAnimationForElement el w0);
          agg = snd (promiseAll (joinSet el w0)
                  (fst (collectWaits el (fst (newPromise (fst (newPromise w0)))))));
          w = run evs w1
      in hasDependencies el \<and> joinSet el w0 = [] \<and>
         pstate (promises w1 ! agg) = Fulfilled \<and> listeners w1 = listeners w0 \<and>
         (microtasks w = [] \<longrightarrow>
            (e \<in> set (frames w) \<or> animationPlayState w e = Some ''running'') \<and>
            animationPlayState (host AnimationFrame w) e = Some ''running'') \<and>
         (microtasks w0 = [] \<longrightarrow>
            e \<in> set (frames (run [RunMicrotask, RunMicrotask, RunMicrotask] w1)) \<and>
            animationPlayState
              (run [RunMicrotask, RunMicrotask, RunMicrotask, AnimationFrame] w1) e =
              Some ''running''))"
proof -
  let ?el = "Element e a ks"
  let ?w1 = "fst (startAnimationForElement ?el w0)"
  let ?wB = "fst (newPromise (fst (newPromise w0)))"
  let ?agg = "snd (promiseAll (joinSet ?el w0) (fst (collectWaits ?el ?wB)))"
  let ?w = "run evs ?w1"
  let ?three = "[RunMicrotask, RunMicrotask, RunMicrotask]"
  have deps: "hasDependencies ?el" using assms(4) by (simp add: hasDependencies_def)
  have none: "collectWaits ?el ?wB = (?wB, [])" by (rule collectWaits_none[OF assms(5-7)])
  have js: "joinSet ?el w0 = []" by (simp add: joinSet_def none)
  have agg: "?agg = Suc (Suc (length (promises w0)))"
    by (simp add: js none promiseAll_Nil length_newPromise)
  note w1 = dispatch_no_waits[OF assms(3) deps none]
  have 1: "pstate (promises ?w1 ! ?agg) = Fulfilled"
    unfolding agg w1 by (simp add: nth_append)
  have 2: "listeners ?w1 = listeners w0" unfolding w1 by simp
  note t = tracked[OF assms(1-3) deps assms(8)]
  have 3: "microtasks ?w = [] \<longrightarrow>
      (e \<in> set (frames ?w) \<or> animationPlayState ?w e = Some ''running'') \<and>
      animationPlayState (host AnimationFrame ?w) e = Some ''running''"
  proof
    assume q: "microtasks ?w = []"
    have "\<forall>m\<in>set (waits (callOf ?el w0)). st ?w m = Fulfilled"
      by (simp add: callOf_simps js)
    then have r: "requested ?w e \<or> running ?w e"
      using quiescent_fulfilled(4)[OF t q] by (simp add: callOf_simps)
    have "running (fold runFrame (frames ?w) (?w\<lparr>frames := []\<rparr>)) e =
        (running (?w\<lparr>frames := []\<rparr>) e \<or> e \<in> set (frames ?w))"
      by (rule obs_runFrames(7))
    then have "running (host AnimationFrame ?w) e"
      using r by (auto simp: requested_def running_def)
    then show "(e \<in> set (frames ?w) \<or> animationPlayState ?w e = Some ''running'') \<and>
      animationPlayState (host AnimationFrame ?w) e = Some ''running''"
      using r by (simp add: requested_def running_def)
  qed
  have 4: "microtasks w0 = [] \<longrightarrow>
      e \<in> set (frames (run ?three ?w1)) \<and>
      animationPlayState (run [RunMicrotask, RunMicrotask, RunMicrotask, AnimationFrame] ?w1) e =
        Some ''running''"
  proof
    assume q: "microtasks w0 = []"
    define w3 where "w3 = run ?three ?w1"
    have "frames w3 = frames w0 @ [e]"
      unfolding w3_def by (rule three_microtasks(1)[OF w1 q])
    then have f: "e \<in> set (frames w3)" by simp
    have "run (?three @ [AnimationFrame]) ?w1 = host AnimationFrame w3"
      unfolding w3_def run_def fold_append by simp
    then have r: "run [RunMicrotask, RunMicrotask, RunMicrotask, AnimationFrame] ?w1 =
        host AnimationFrame w3"
      by (simp only: append.simps)
    have "running (fold runFrame (frames w3) (w3\<lparr>frames := []\<rparr>)) e =
        (running (w3\<lparr>frames := []\<rparr>) e \<or> e \<in> set (frames w3))"
      by (rule obs_runFrames(7))
    then have "running (host AnimationFrame w3) e" using f by simp
    then have "animationPlayState (host AnimationFrame w3) e = Some ''running''"
      by (simp only: running_def)
    then show "e \<in> set (frames (run ?three ?w1)) \<and>
      animationPlayState (run [RunMicrotask, RunMicrotask, RunMicrotask, AnimationFrame] ?w1) e =
        Some ''running''"
      using f unfolding r unfolding w3_def by (intro conjI)
  qed
  from deps js 1 2 3 4 show ?thesis unfolding Let_def by (intro conjI)
qed

theorem text_outside_span_no_font_wait_witness:
  "wellFormed fontWorld \<and> idle 1 fontWorld \<and> hasTextContent textBox \<and>
   faceKey (fonts fontWorld ! 0) = ''serif_normal_400'' \<and>
   pstate (promises (run [RunMicrotask, RunMicrotask, RunMicrotask, AnimationFrame]
     (fst (startAnimationForElement textBox fontWorld))) ! loaded (fonts fontWorld ! 0)) = Pending \<and>
   pstate (promises (run [RunMicrotask, RunMicrotask, RunMicrotask, AnimationFrame]
     (fst (startAnimationForElement textBox fontWorld))) ! fontsReady fontWorld) = Pending \<and>
   animationPlayState (run [RunMicrotask, RunMicrotask, RunMicrotask, AnimationFrame]
     (fst (startAnimationForElement textBox fontWorld))) 1 = Some ''running''"
proof -
  let ?w = "run [RunMicrotask, RunMicrotask, RunMicrotask, AnimationFrame]
     (fst (startAnimationForElement textBox fontWorld))"
  have wf: "wellFormed fontWorld" and idle: "idle 1 fontWorld"
    by (simp_all add: wellFormed_def idle_def fontWorld_def emptyWorld_def)
  have an: "''animated'' \<in> set (classList (plainElem ''div'' [''animated'']))"
    by (simp add: plainElem_def)
  have htc': "hasTextContent textBox" by code_simp
  have htc: "hasTextContent (Element 1 (plainElem ''div'' [''animated'']) [TextNode [0x48, 0x69]])"
    using htc' by (simp only: textBox_def)
  have t1: "getElementsByTagName (Element 1 (plainElem ''div'' [''animated'']) [TextNode [0x48, 0x69]]) ''img'' = []"
    and t2: "getElementsByTagName (Element 1 (plainElem ''div'' [''animated'']) [TextNode [0x48, 0x69]]) ''video'' = []"
    and t3: "getElementsByTagName (Element 1 (plainElem ''div'' [''animated'']) [TextNode [0x48, 0x69]]) ''span'' = []"
    by (simp_all add: getElementsByTagName_def)
  have e0: "list_all resourceEvent []" by simp
  have q: "microtasks fontWorld = []" by (simp add: fontWorld_def emptyWorld_def)
  have k: "faceKey (fonts fontWorld ! 0) = ''serif_normal_400''" by code_simp
  have p1: "pstate (promises ?w ! loaded (fonts fontWorld ! 0)) = Pending" by code_simp
  have p2: "pstate (promises ?w ! fontsReady fontWorld) = Pending" by code_simp
  note a = text_outside_span_no_font_wait[OF wf idle an htc t1 t2 t3 e0, folded textBox_def,
      unfolded Let_def]
  have r: "animationPlayState ?w 1 = Some ''running''"
    by (rule a[THEN conjunct2, THEN conjunct2, THEN conjunct2, THEN conjunct2, THEN conjunct2,
          THEN mp, OF q, THEN conjunct2])
  from wf idle htc' k p1 p2 r show ?thesis by (intro conjI)
qed

section \<open>A wait that fails\<close>








end
